theory Spec2Isabelle
  imports Main "HOL-Library.Word" "HOL-Library.Monad_Syntax"
begin

unbundle bit_operations_syntax

section \<open>The pipe of \<^verbatim>\<open>pipe.c\<close>: data model\<close>

text \<open>
  The embedding follows \<^verbatim>\<open>src/pipe.c\<close> on an LP64 platform: \<^verbatim>\<open>size_t\<close> is a 64-bit
  word, so every addition, subtraction and multiplication below wraps as the C arithmetic
  does. A pointer into the pipe's buffer is its byte offset from \<^verbatim>\<open>p->buffer\<close> (so
  \<^verbatim>\<open>p->buffer\<close> itself is offset 0); pointer comparison, difference and addition are the
  word operations on offsets. The allocated block is a list of bytes; \<^verbatim>\<open>NULL\<close> is
  \<open>None\<close>.

  The functions are the program with \<^verbatim>\<open>NDEBUG\<close> defined, where \<^verbatim>\<open>assert\<close> expands to
  nothing. \<open>check_invariants\<close> is a predicate, and the section on the build with
  assertions says, for each function, which assertions the program compiled without
  \<^verbatim>\<open>NDEBUG\<close> reaches. The mutex and the two condition variables are not
  part of the state: every function below is the body of one critical section, and a
  \<^verbatim>\<open>pthread_cond_wait\<close> whose loop condition holds is the outcome "waits".

  A \<^verbatim>\<open>memcpy\<close> that reads or writes outside its block is undefined behaviour in C;
  in the model it is \<open>None\<close>, and \<open>None\<close> propagates.
\<close>

type_synonym size_t = "64 word"
type_synonym byte = "8 word"

text \<open>\<^verbatim>\<open>DEFAULT_MINCAP\<close> is 2 when \<^verbatim>\<open>DEBUG\<close> is defined and 32 otherwise.\<close>

datatype build = DEBUG | RELEASE

fun DEFAULT_MINCAP :: "build \<Rightarrow> size_t" where
  "DEFAULT_MINCAP DEBUG = 2"
| "DEFAULT_MINCAP RELEASE = 32"

text \<open>
  \<^verbatim>\<open>struct pipe\<close>. The fields \<^verbatim>\<open>begin\<close> and \<^verbatim>\<open>end\<close> are called \<open>begin_ptr\<close> and
  \<open>end_ptr\<close> here; \<open>bufend\<close>, \<open>begin_ptr\<close> and \<open>end_ptr\<close> are byte offsets from the start
  of \<open>buffer\<close>.
\<close>

record pipe =
  elem_size :: size_t
  elem_count :: size_t
  capacity :: size_t
  min_cap :: size_t
  max_cap :: size_t
  buffer :: "byte list option"
  bufend :: size_t
  begin_ptr :: size_t
  end_ptr :: size_t
  producer_refcount :: size_t
  consumer_refcount :: size_t

subsection \<open>Memory\<close>

text \<open>
  \<^verbatim>\<open>malloc(n)\<close> is taken to succeed and returns a block of \<open>n\<close> bytes. The bytes of a
  fresh block are indeterminate in C; the model fills them with 0.
\<close>

definition malloc :: "size_t \<Rightarrow> byte list" where
  "malloc n = replicate (unat n) 0"

text \<open>Reading \<open>n\<close> bytes at offset \<open>off\<close> of a block: the source side of a \<^verbatim>\<open>memcpy\<close>.\<close>

definition mem_read :: "byte list option \<Rightarrow> size_t \<Rightarrow> size_t \<Rightarrow> byte list option" where
  "mem_read blk off n =
     (case blk of
        None \<Rightarrow> None
      | Some b \<Rightarrow>
          if unat off + unat n \<le> length b
          then Some (take (unat n) (drop (unat off) b))
          else None)"

text \<open>Writing bytes at offset \<open>off\<close> of a block: the destination side of a \<^verbatim>\<open>memcpy\<close>.\<close>

definition mem_write :: "byte list \<Rightarrow> size_t \<Rightarrow> byte list \<Rightarrow> byte list option" where
  "mem_write b off src =
     (if unat off + length src \<le> length b
      then Some (take (unat off) b @ src @ drop (unat off + length src) b)
      else None)"

text \<open>
  \<^verbatim>\<open>offset_memcpy(dest, src, n)\<close>: copies \<open>n\<close> bytes from offset \<open>src\<close> of block
  \<open>src_blk\<close> to offset \<open>dest\<close> of block \<open>dest_blk\<close> and returns \<open>dest + n\<close>, here
  together with the block written.
\<close>

definition offset_memcpy ::
  "byte list \<Rightarrow> size_t \<Rightarrow> byte list option \<Rightarrow> size_t \<Rightarrow> size_t \<Rightarrow> (byte list \<times> size_t) option" where
  "offset_memcpy dest_blk dest src_blk src n =
     do {
       bytes \<leftarrow> mem_read src_blk src n;
       blk \<leftarrow> mem_write dest_blk dest bytes;
       Some (blk, dest + n)
     }"

subsection \<open>Small helpers\<close>

definition fix_bufend :: "pipe \<Rightarrow> pipe" where
  "fix_bufend p = p\<lparr>bufend := elem_size p * capacity p\<rparr>"

definition wraps_around :: "pipe \<Rightarrow> bool" where
  "wraps_around p \<longleftrightarrow> begin_ptr p > end_ptr p"

definition in_bounds :: "size_t \<Rightarrow> size_t \<Rightarrow> size_t \<Rightarrow> bool" where
  "in_bounds left q right \<longleftrightarrow> q \<ge> left \<and> q \<le> right"

definition wrap_if_at_end :: "size_t \<Rightarrow> size_t \<Rightarrow> size_t \<Rightarrow> size_t" where
  "wrap_if_at_end q begin_q end_q = (if q = end_q then begin_q else q)"

text \<open>
  \<^verbatim>\<open>next_pow2\<close>. The loop \<^verbatim>\<open>for(shift = 1; shift < 64; shift <<= 1) n |= n >> shift\<close>
  runs for \<open>shift = 1, 2, 4, 8, 16, 32\<close>.
\<close>

definition next_pow2 :: "size_t \<Rightarrow> size_t" where
  "next_pow2 n =
     (let top = drop_bit 1 (NOT 0 :: size_t) + 1 in
      if n \<ge> top then n
      else
        let n = n - 1;
            n = fold (\<lambda>shift n. n OR drop_bit shift n) [1, 2, 4, 8, 16, 32] n
        in n + 1)"

text \<open>
  \<^verbatim>\<open>check_invariants\<close>: the conjunction of the assertions of the source, in their order.
  With a \<^verbatim>\<open>NULL\<close> buffer only \<open>consumer_refcount = 0\<close> is asserted.
\<close>

definition check_invariants :: "build \<Rightarrow> pipe \<Rightarrow> bool" where
  "check_invariants b p \<longleftrightarrow>
     (case buffer p of
        None \<Rightarrow> consumer_refcount p = 0
      | Some buf \<Rightarrow>
          elem_size p \<noteq> 0 \<and>
          elem_count p \<le> capacity p \<and>
          bufend p = elem_size p * capacity p \<and>
          in_bounds 0 (begin_ptr p) (bufend p) \<and>
          in_bounds 0 (end_ptr p) (bufend p) \<and>
          min_cap p \<ge> DEFAULT_MINCAP b \<and>
          min_cap p \<le> max_cap p \<and>
          capacity p \<ge> min_cap p \<and> capacity p \<le> max_cap p \<and>
          begin_ptr p \<noteq> bufend p \<and>
          (if wraps_around p
           then elem_size p * elem_count p = (end_ptr p - 0) + (bufend p - begin_ptr p)
           else elem_size p * elem_count p = end_ptr p - begin_ptr p))"

section \<open>Creation and handles\<close>

text \<open>
  \<^verbatim>\<open>pipe_new\<close>, for the case that the \<^verbatim>\<open>malloc\<close> of the \<^verbatim>\<open>struct pipe\<close> succeeds (the
  source returns \<^verbatim>\<open>NULL\<close> otherwise). \<open>bufend\<close> is set by \<open>fix_bufend\<close>.
\<close>

definition pipe_new :: "build \<Rightarrow> size_t \<Rightarrow> size_t \<Rightarrow> pipe" where
  "pipe_new b es limit =
     fix_bufend
       \<lparr> elem_size = es,
         elem_count = 0,
         capacity = DEFAULT_MINCAP b,
         min_cap = DEFAULT_MINCAP b,
         max_cap = (if limit \<noteq> 0 then next_pow2 (max limit (DEFAULT_MINCAP b)) else NOT 0),
         buffer = Some (malloc (es * DEFAULT_MINCAP b)),
         bufend = 0,
         begin_ptr = 0,
         end_ptr = 0,
         producer_refcount = 1,
         consumer_refcount = 1 \<rparr>"

text \<open>
  \<^verbatim>\<open>DEF_NEW_FUNC\<close>: the handle returned is the pipe pointer itself, cast; the model
  returns the pipe.
\<close>

definition pipe_producer_new :: "pipe \<Rightarrow> pipe" where
  "pipe_producer_new p = p\<lparr>producer_refcount := producer_refcount p + 1\<rparr>"

definition pipe_consumer_new :: "pipe \<Rightarrow> pipe" where
  "pipe_consumer_new p = p\<lparr>consumer_refcount := consumer_refcount p + 1\<rparr>"

definition requires_deallocation :: "pipe \<Rightarrow> bool" where
  "requires_deallocation p \<longleftrightarrow> producer_refcount p = 0 \<and> consumer_refcount p = 0"

text \<open>The result of dropping a handle: the pipe is gone, or it lives on.\<close>

datatype freed = Deallocated | Alive pipe

definition pipe_free :: "pipe \<Rightarrow> freed" where
  "pipe_free p =
     (let p = p\<lparr>producer_refcount := producer_refcount p - 1\<rparr>;
          p = p\<lparr>consumer_refcount := consumer_refcount p - 1\<rparr>
      in if requires_deallocation p then Deallocated else Alive p)"

definition pipe_producer_free :: "pipe \<Rightarrow> freed" where
  "pipe_producer_free p =
     (let p = p\<lparr>producer_refcount := producer_refcount p - 1\<rparr>
      in if requires_deallocation p then Deallocated else Alive p)"

definition pipe_consumer_free :: "pipe \<Rightarrow> freed" where
  "pipe_consumer_free p =
     (let p = p\<lparr>consumer_refcount := consumer_refcount p - 1\<rparr>;
          p = (if consumer_refcount p = 0 then p\<lparr>buffer := None\<rparr> else p)
      in if requires_deallocation p then Deallocated else Alive p)"

section \<open>Resizing\<close>

text \<open>
  \<^verbatim>\<open>copy_pipe_into_new_buf\<close>: returns the block written and the offset one past the
  last byte copied.
\<close>

definition copy_pipe_into_new_buf :: "pipe \<Rightarrow> byte list \<Rightarrow> (byte list \<times> size_t) option" where
  "copy_pipe_into_new_buf p buf =
     (if wraps_around p then
        do {
          (buf, q) \<leftarrow> offset_memcpy buf 0 (buffer p) (begin_ptr p) (bufend p - begin_ptr p);
          offset_memcpy buf q (buffer p) 0 (end_ptr p - 0)
        }
      else
        offset_memcpy buf 0 (buffer p) (begin_ptr p) (end_ptr p - begin_ptr p))"

definition resize_buffer :: "pipe \<Rightarrow> size_t \<Rightarrow> pipe option" where
  "resize_buffer p new_size =
     (let new_size = (if new_size \<ge> max_cap p then max_cap p else new_size) in
      if new_size \<le> elem_count p \<or> new_size < min_cap p then Some p
      else
        do {
          let new_size_in_bytes = new_size * elem_size p;
          (new_buf, e) \<leftarrow> copy_pipe_into_new_buf p (malloc new_size_in_bytes);
          Some (fix_bufend
                  (p\<lparr>end_ptr := e, buffer := Some new_buf, begin_ptr := 0,
                     capacity := new_size\<rparr>))
        })"

section \<open>Push\<close>

text \<open>
  \<^verbatim>\<open>push_without_locking\<close>. \<open>elems\<close> is the caller's array from the pointer on; advancing
  the pointer by \<open>at_end\<close> bytes drops that many bytes of the list. A read past the end
  of \<open>elems\<close> is \<open>None\<close>, as is a push on a pipe whose buffer is \<^verbatim>\<open>NULL\<close>.
\<close>

definition push_without_locking :: "pipe \<Rightarrow> byte list \<Rightarrow> size_t \<Rightarrow> pipe option" where
  "push_without_locking p0 elems count =
     do {
       let elem_count0 = elem_count p0;
       let elem_size0 = elem_size p0;
       p \<leftarrow> (if elem_count0 + count > capacity p0
             then resize_buffer p0 (next_pow2 (elem_count0 + count))
             else Some p0);
       let bytes_to_copy = count * elem_size0;
       buf \<leftarrow> buffer p;
       (buf, e, elems, bytes_to_copy) \<leftarrow>
         (if \<not> wraps_around p then
            do {
              let at_end = min bytes_to_copy (bufend p - end_ptr p);
              (buf, q) \<leftarrow> offset_memcpy buf (end_ptr p) (Some elems) 0 at_end;
              Some (buf, wrap_if_at_end q 0 (bufend p),
                    drop (unat at_end) elems, bytes_to_copy - at_end)
            }
          else Some (buf, end_ptr p, elems, bytes_to_copy));
       (buf, q) \<leftarrow> offset_memcpy buf e (Some elems) 0 bytes_to_copy;
       Some (p\<lparr>buffer := Some buf,
                end_ptr := wrap_if_at_end q 0 (bufend p),
                elem_count := elem_count p + count\<rparr>)
     }"

text \<open>
  One critical section of \<^verbatim>\<open>pipe_push\<close> (the body of its \<^verbatim>\<open>WHILE_LOCKED\<close>), entered
  with \<open>count \<noteq> 0\<close>: the thread waits on \<^verbatim>\<open>just_popped\<close>, or returns because no consumer
  is left, or pushes a chunk of \<open>elems_pushed\<close> elements.
\<close>

datatype push_section =
    Push_waits
  | Push_no_consumers
  | Pushed pipe size_t
  | Push_undefined

definition push_locked :: "pipe \<Rightarrow> byte list \<Rightarrow> size_t \<Rightarrow> push_section" where
  "push_locked p elems count =
     (if elem_count p = max_cap p \<and> consumer_refcount p > 0 then Push_waits
      else if consumer_refcount p = 0 then Push_no_consumers
      else
        let elems_pushed = min count (max_cap p - elem_count p) in
        case push_without_locking p elems elems_pushed of
          None \<Rightarrow> Push_undefined
        | Some p' \<Rightarrow> Pushed p' elems_pushed)"

text \<open>
  \<^verbatim>\<open>pipe_push\<close>: the recursion of the source over the chunks. Between two critical
  sections, and while the thread sleeps in \<^verbatim>\<open>pthread_cond_wait\<close>, other threads may
  change the pipe. They are the list \<open>env\<close>: each time this thread gives up the mutex
  the next function of the list is applied to the pipe, and when the list is empty no
  other thread ever runs again. So a thread that has to wait with \<open>env = []\<close> stays
  suspended for ever, and \<open>pipe_push []\<close> is a push that nothing interrupts.

  The result is the pipe on return, or the pipe and the arguments with which the thread
  is left suspended. The natural number counts the chunks pushed; it is not part of the
  program's state.
\<close>

datatype push_result =
    Push_returned pipe nat
  | Push_suspended pipe "byte list" size_t nat
  | Push_crashed

fun one_more_chunk :: "push_result \<Rightarrow> push_result" where
  "one_more_chunk (Push_returned p n) = Push_returned p (Suc n)"
| "one_more_chunk (Push_suspended p elems count n) = Push_suspended p elems count (Suc n)"
| "one_more_chunk Push_crashed = Push_crashed"

fun others :: "(pipe \<Rightarrow> pipe) list \<Rightarrow> pipe \<Rightarrow> pipe" where
  "others [] p = p"
| "others (f # env) p = f p"

lemma chunk_decreases:
  fixes count k :: size_t
  assumes "k \<noteq> 0 \<and> k \<le> count"
  shows "unat (count - k) < unat count"
proof -
  from assms have "unat k \<le> unat count" and "0 < unat k"
    by (simp_all add: word_le_nat_alt unat_gt_0)
  then show ?thesis by (simp add: unat_sub word_le_nat_alt)
qed

lemma push_locked_chunk:
  assumes "push_locked p elems count = Pushed p' k" and "count \<noteq> 0"
  shows "k \<noteq> 0 \<and> k \<le> count"
proof -
  from assms(1) have ne: "elem_count p \<noteq> max_cap p"
    by (auto simp: push_locked_def Let_def word_greater_zero_iff split: if_splits option.splits)
  from assms(1) have k: "k = min count (max_cap p - elem_count p)"
    by (auto simp: push_locked_def Let_def split: if_splits option.splits)
  from ne have "max_cap p - elem_count p \<noteq> 0" by simp
  with k assms(2) show ?thesis by (auto simp: min_def)
qed

function pipe_push :: "(pipe \<Rightarrow> pipe) list \<Rightarrow> pipe \<Rightarrow> byte list \<Rightarrow> size_t \<Rightarrow> push_result" where
  "pipe_push env p elems count =
     (if count = 0 then Push_returned p 0
      else
        case push_locked p elems count of
          Push_waits \<Rightarrow>
            (case env of
               [] \<Rightarrow> Push_suspended p elems count 0
             | f # env' \<Rightarrow> pipe_push env' (f p) elems count)
        | Push_no_consumers \<Rightarrow> Push_returned p 0
        | Push_undefined \<Rightarrow> Push_crashed
        | Pushed p' elems_pushed \<Rightarrow>
            one_more_chunk
              (pipe_push (tl env) (others env p')
                 (drop (unat (elems_pushed * elem_size p)) elems)
                 (count - elems_pushed)))"
  by pat_completeness auto
termination
proof (relation "measures [\<lambda>(env, p, elems, count). unat count,
                           \<lambda>(env, p, elems, count). length env]")
  show "wf (measures [\<lambda>(env, p, elems, count). unat count,
                      \<lambda>(env, p, elems, count). length env])"
    by simp
next
  fix env :: "(pipe \<Rightarrow> pipe) list" and p :: pipe and elems :: "byte list"
    and count :: size_t and f env'
  assume "env = f # env'"
  then show "((env', f p, elems, count), (env, p, elems, count))
             \<in> measures [\<lambda>(env, p, elems, count). unat count,
                          \<lambda>(env, p, elems, count). length env]"
    by simp
next
  fix env :: "(pipe \<Rightarrow> pipe) list" and p :: pipe and elems :: "byte list"
    and count x2 :: size_t and x1 :: pipe
  assume "count \<noteq> 0" and "push_locked p elems count = Pushed x1 x2"
  then have "x2 \<noteq> 0 \<and> x2 \<le> count" using push_locked_chunk by blast
  then have "unat (count - x2) < unat count"
    by (rule chunk_decreases)
  then show "((tl env, others env x1, drop (unat (x2 * elem_size p)) elems, count - x2),
              (env, p, elems, count))
             \<in> measures [\<lambda>(env, p, elems, count). unat count,
                          \<lambda>(env, p, elems, count). length env]"
    by simp
qed


section \<open>Pop\<close>

text \<open>
  \<^verbatim>\<open>pop_without_locking\<close>: returns the pipe, the bytes written to \<^verbatim>\<open>target\<close> in
  order, and \<^verbatim>\<open>elems_to_copy\<close>.
\<close>

definition pop_without_locking :: "pipe \<Rightarrow> size_t \<Rightarrow> (pipe \<times> byte list \<times> size_t) option" where
  "pop_without_locking p0 count =
     do {
       let elem_count0 = elem_count p0;
       let elem_size0 = elem_size p0;
       let elems_to_copy = min count elem_count0;
       let bytes_remaining = elems_to_copy * elem_size0;
       let elem_count1 = elem_count0 - elems_to_copy;
       let p = p0\<lparr>elem_count := elem_count1\<rparr>;
       let first_bytes_to_copy = min bytes_remaining (bufend p - begin_ptr p);
       target1 \<leftarrow> mem_read (buffer p) (begin_ptr p) first_bytes_to_copy;
       let bytes_remaining = bytes_remaining - first_bytes_to_copy;
       let b = wrap_if_at_end (begin_ptr p + first_bytes_to_copy) 0 (bufend p);
       (target2, b) \<leftarrow>
         (if bytes_remaining > 0 then
            do {
              bytes \<leftarrow> mem_read (buffer p) 0 bytes_remaining;
              Some (bytes, wrap_if_at_end (b + bytes_remaining) 0 (bufend p))
            }
          else Some ([], b));
       let p = p\<lparr>begin_ptr := b\<rparr>;
       p \<leftarrow> (if elem_count1 \<le> capacity p div 4
             then resize_buffer p (capacity p div 2)
             else Some p);
       Some (p, target1 @ target2, elems_to_copy)
     }"

text \<open>
  The first part of \<^verbatim>\<open>pop_without_locking\<close>, up to its second call of
  \<^verbatim>\<open>check_invariants\<close> (\<^verbatim>\<open>pipe.c:598\<close>): the elements are copied out and \<open>begin_ptr\<close> is
  advanced, the buffer is not yet shrunk. Lemma \<open>pop_without_locking_pop_copy\<close> shows that
  \<open>pop_without_locking\<close> is this followed by the shrink.
\<close>

definition pop_copy :: "pipe \<Rightarrow> size_t \<Rightarrow> (pipe \<times> byte list \<times> size_t) option" where
  "pop_copy p0 count =
     do {
       let elem_count0 = elem_count p0;
       let elem_size0 = elem_size p0;
       let elems_to_copy = min count elem_count0;
       let bytes_remaining = elems_to_copy * elem_size0;
       let elem_count1 = elem_count0 - elems_to_copy;
       let p = p0\<lparr>elem_count := elem_count1\<rparr>;
       let first_bytes_to_copy = min bytes_remaining (bufend p - begin_ptr p);
       target1 \<leftarrow> mem_read (buffer p) (begin_ptr p) first_bytes_to_copy;
       let bytes_remaining = bytes_remaining - first_bytes_to_copy;
       let b = wrap_if_at_end (begin_ptr p + first_bytes_to_copy) 0 (bufend p);
       (target2, b) \<leftarrow>
         (if bytes_remaining > 0 then
            do {
              bytes \<leftarrow> mem_read (buffer p) 0 bytes_remaining;
              Some (bytes, wrap_if_at_end (b + bytes_remaining) 0 (bufend p))
            }
          else Some ([], b));
       let p = p\<lparr>begin_ptr := b\<rparr>;
       Some (p, target1 @ target2, elems_to_copy)
     }"

text \<open>
  \<^verbatim>\<open>pipe_pop\<close>: the thread waits on \<^verbatim>\<open>just_pushed\<close>, or returns the pipe, the bytes
  written to \<^verbatim>\<open>target\<close> and the number of elements popped.
\<close>

datatype pop_result =
    Pop_waits
  | Pop_returned pipe "byte list" size_t
  | Pop_crashed

definition pipe_pop :: "pipe \<Rightarrow> size_t \<Rightarrow> pop_result" where
  "pipe_pop p count0 =
     (let count = (if count0 > max_cap p then max_cap p else count0) in
      if elem_count p < count \<and> producer_refcount p > 0 then Pop_waits
      else if elem_count p > 0 then
        (case pop_without_locking p count of
           None \<Rightarrow> Pop_crashed
         | Some (p', target, ret) \<Rightarrow> Pop_returned p' target ret)
      else Pop_returned p [] 0)"

section \<open>Reserve\<close>

text \<open>
  \<^verbatim>\<open>pipe_reserve\<close>. The argument of the model is the pipe itself, so the early return
  of the source for \<^verbatim>\<open>p == NULL\<close> has no counterpart. \<open>None\<close> is a copy outside its
  block inside \<^verbatim>\<open>resize_buffer\<close>.
\<close>

definition pipe_reserve :: "build \<Rightarrow> pipe \<Rightarrow> size_t \<Rightarrow> pipe option" where
  "pipe_reserve b p count0 =
     (let count = (if count0 = 0 then DEFAULT_MINCAP b else count0) in
      if count \<le> elem_count p then Some p
      else resize_buffer (p\<lparr>min_cap := min count (max_cap p)\<rparr>) count)"

section \<open>Sessions\<close>

text \<open>
  The critical sections that threads can run on one pipe while all handles stay alive.
  \<open>Push elems count\<close> is one critical section of \<^verbatim>\<open>pipe_push\<close>, so a chunked push is
  several of them. A thread that has to wait leaves the pipe as it is.
\<close>

datatype op =
    Push "byte list" size_t
  | Pop size_t
  | Reserve size_t
  | Producer_new
  | Consumer_new

fun exec :: "build \<Rightarrow> op \<Rightarrow> pipe \<Rightarrow> pipe option" where
  "exec b (Push elems count) p =
     (if count = 0 then Some p
      else
        case push_locked p elems count of
          Push_waits \<Rightarrow> Some p
        | Push_no_consumers \<Rightarrow> Some p
        | Push_undefined \<Rightarrow> None
        | Pushed p' elems_pushed \<Rightarrow> Some p')"
| "exec b (Pop count) p =
     (case pipe_pop p count of
        Pop_waits \<Rightarrow> Some p
      | Pop_crashed \<Rightarrow> None
      | Pop_returned p' target ret \<Rightarrow> Some p')"
| "exec b (Reserve count) p = pipe_reserve b p count"
| "exec b Producer_new p = Some (pipe_producer_new p)"
| "exec b Consumer_new p = Some (pipe_consumer_new p)"

fun run :: "build \<Rightarrow> op list \<Rightarrow> pipe \<Rightarrow> pipe option" where
  "run b [] p = Some p"
| "run b (x # xs) p = (case exec b x p of None \<Rightarrow> None | Some p' \<Rightarrow> run b xs p')"

text \<open>Popping \<open>n\<close> times one element, collecting the bytes; \<open>None\<close> when a pop waits or crashes.\<close>

fun pop_each :: "nat \<Rightarrow> pipe \<Rightarrow> (pipe \<times> byte list) option" where
  "pop_each 0 p = Some (p, [])"
| "pop_each (Suc n) p =
     (case pipe_pop p 1 of
        Pop_returned p' target ret \<Rightarrow>
          (case pop_each n p' of
             None \<Rightarrow> None
           | Some (p'', rest) \<Rightarrow> Some (p'', target @ rest))
      | _ \<Rightarrow> None)"

section \<open>The build with assertions\<close>

text \<open>
  Compiled without \<^verbatim>\<open>NDEBUG\<close>, the program runs \<^verbatim>\<open>check_invariants\<close> when a critical
  section takes and gives back the mutex (\<^verbatim>\<open>lock_pipe\<close>, \<^verbatim>\<open>unlock_pipe\<close>) and inside
  \<^verbatim>\<open>resize_buffer\<close>, \<^verbatim>\<open>copy_pipe_into_new_buf\<close>, \<^verbatim>\<open>push_without_locking\<close> and
  \<^verbatim>\<open>pop_without_locking\<close>, and \<^verbatim>\<open>abort\<close>s at the first assertion that fails. An
  assertion reads the pipe and never writes it, so up to that point the program computes
  what the functions above compute. For each function, the predicate below is the
  conjunction of the assertions that the function reaches, each on the state computed
  by then: it holds when the build with assertions runs through the function without
  aborting. Where the function above is \<open>None\<close> the assertions after the copy that left
  its block are not reached. The assertions that a pointer argument is not \<^verbatim>\<open>NULL\<close> have
  no counterpart.
\<close>

text \<open>
  \<^verbatim>\<open>resize_buffer\<close>: \<^verbatim>\<open>check_invariants\<close> at entry (\<^verbatim>\<open>pipe.c:431\<close>); when the buffer is
  replaced, the assertion on \<^verbatim>\<open>bufsize\<close> and \<^verbatim>\<open>check_invariants\<close> in
  \<^verbatim>\<open>copy_pipe_into_new_buf\<close> (\<^verbatim>\<open>pipe.c:413\<close>, \<^verbatim>\<open>414\<close>), on the pipe as it was, and
  \<^verbatim>\<open>check_invariants\<close> on the resized pipe (\<^verbatim>\<open>pipe.c:454\<close>).
\<close>

definition resize_buffer_asserts :: "build \<Rightarrow> pipe \<Rightarrow> size_t \<Rightarrow> bool" where
  "resize_buffer_asserts b p new_size0 \<longleftrightarrow>
     check_invariants b p \<and>
     (let new_size = (if new_size0 \<ge> max_cap p then max_cap p else new_size0) in
      if new_size \<le> elem_count p \<or> new_size < min_cap p then True
      else
        new_size * elem_size p \<ge> elem_size p * elem_count p \<and>
        check_invariants b p \<and>
        (case resize_buffer p new_size0 of
           None \<Rightarrow> True
         | Some p' \<Rightarrow> check_invariants b p'))"

text \<open>
  \<^verbatim>\<open>push_without_locking\<close>: \<^verbatim>\<open>check_invariants\<close> at entry (\<^verbatim>\<open>pipe.c:459\<close>), the
  assertion \<^verbatim>\<open>n != 0\<close> of \<^verbatim>\<open>next_pow2\<close> and the assertions of \<^verbatim>\<open>resize_buffer\<close> when the
  buffer has to grow, and \<^verbatim>\<open>check_invariants\<close> on the pipe that holds the new elements
  (\<^verbatim>\<open>pipe.c:502\<close>).
\<close>

definition push_without_locking_asserts :: "build \<Rightarrow> pipe \<Rightarrow> byte list \<Rightarrow> size_t \<Rightarrow> bool" where
  "push_without_locking_asserts b p elems count \<longleftrightarrow>
     check_invariants b p \<and>
     (if elem_count p + count > capacity p
      then elem_count p + count \<noteq> 0 \<and>
           resize_buffer_asserts b p (next_pow2 (elem_count p + count))
      else True) \<and>
     (case push_without_locking p elems count of
        None \<Rightarrow> True
      | Some p' \<Rightarrow> check_invariants b p')"

text \<open>
  One critical section of \<^verbatim>\<open>pipe_push\<close>: \<^verbatim>\<open>check_invariants\<close> in \<^verbatim>\<open>lock_pipe\<close>; when a
  chunk is pushed, the assertions of \<^verbatim>\<open>push_without_locking\<close> and
  \<^verbatim>\<open>assert(elems_pushed > 0)\<close>. \<^verbatim>\<open>unlock_pipe\<close> checks the pipe that the last assertion
  of \<^verbatim>\<open>push_without_locking\<close> has checked, or, on the way out without consumers, the
  pipe that \<^verbatim>\<open>lock_pipe\<close> has checked.
\<close>

definition push_locked_asserts :: "build \<Rightarrow> pipe \<Rightarrow> byte list \<Rightarrow> size_t \<Rightarrow> bool" where
  "push_locked_asserts b p elems count \<longleftrightarrow>
     check_invariants b p \<and>
     (if elem_count p = max_cap p \<and> consumer_refcount p > 0 then True
      else if consumer_refcount p = 0 then True
      else
        let elems_pushed = min count (max_cap p - elem_count p) in
        push_without_locking_asserts b p elems elems_pushed \<and> elems_pushed > 0)"

text \<open>
  \<^verbatim>\<open>pop_without_locking\<close>: \<^verbatim>\<open>check_invariants\<close> at entry (\<^verbatim>\<open>pipe.c:555\<close>), the assertion
  on \<^verbatim>\<open>bytes_remaining\<close> (\<^verbatim>\<open>pipe.c:563\<close>), \<^verbatim>\<open>check_invariants\<close> after the copy
  (\<^verbatim>\<open>pipe.c:598\<close>), and the assertions of \<^verbatim>\<open>resize_buffer\<close> when the buffer is to shrink.
\<close>

definition pop_without_locking_asserts :: "build \<Rightarrow> pipe \<Rightarrow> size_t \<Rightarrow> bool" where
  "pop_without_locking_asserts b p count \<longleftrightarrow>
     check_invariants b p \<and>
     min count (elem_count p) * elem_size p \<le> elem_count p * elem_size p \<and>
     (case pop_copy p count of
        None \<Rightarrow> True
      | Some (p2, target, ret) \<Rightarrow>
          check_invariants b p2 \<and>
          (if elem_count p2 \<le> capacity p2 div 4
           then resize_buffer_asserts b p2 (capacity p2 div 2)
           else True))"

text \<open>
  \<^verbatim>\<open>pipe_pop\<close>: \<^verbatim>\<open>check_invariants\<close> in \<^verbatim>\<open>lock_pipe\<close>, the assertions of
  \<^verbatim>\<open>pop_without_locking\<close> when it is called, and \<^verbatim>\<open>check_invariants\<close> in \<^verbatim>\<open>unlock_pipe\<close>.
\<close>

definition pipe_pop_asserts :: "build \<Rightarrow> pipe \<Rightarrow> size_t \<Rightarrow> bool" where
  "pipe_pop_asserts b p count0 \<longleftrightarrow>
     check_invariants b p \<and>
     (let count = (if count0 > max_cap p then max_cap p else count0) in
      if elem_count p < count \<and> producer_refcount p > 0 then True
      else if elem_count p > 0 then
        pop_without_locking_asserts b p count \<and>
        (case pop_without_locking p count of
           None \<Rightarrow> True
         | Some (p', target, ret) \<Rightarrow> check_invariants b p')
      else True)"

text \<open>
  \<^verbatim>\<open>pipe_reserve\<close>: \<^verbatim>\<open>check_invariants\<close> in \<^verbatim>\<open>lock_pipe\<close>; then \<open>min_cap\<close> is written, and
  the assertions of \<^verbatim>\<open>resize_buffer\<close> are on the pipe with the new \<open>min_cap\<close>; at last
  \<^verbatim>\<open>check_invariants\<close> in \<^verbatim>\<open>unlock_pipe\<close>.
\<close>

definition pipe_reserve_asserts :: "build \<Rightarrow> pipe \<Rightarrow> size_t \<Rightarrow> bool" where
  "pipe_reserve_asserts b p count0 \<longleftrightarrow>
     check_invariants b p \<and>
     (let count = (if count0 = 0 then DEFAULT_MINCAP b else count0) in
      if count \<le> elem_count p then True
      else
        resize_buffer_asserts b (p\<lparr>min_cap := min count (max_cap p)\<rparr>) count \<and>
        (case resize_buffer (p\<lparr>min_cap := min count (max_cap p)\<rparr>) count of
           None \<Rightarrow> True
         | Some p' \<Rightarrow> check_invariants b p'))"

text \<open>The assertions of the \<open>n\<close> pops of \<open>pop_each\<close>.\<close>

fun pop_each_asserts :: "build \<Rightarrow> nat \<Rightarrow> pipe \<Rightarrow> bool" where
  "pop_each_asserts b 0 p = True"
| "pop_each_asserts b (Suc n) p =
     (pipe_pop_asserts b p 1 \<and>
      (case pipe_pop p 1 of
         Pop_returned p' target ret \<Rightarrow> pop_each_asserts b n p'
       | _ \<Rightarrow> True))"

section \<open>Predicates of the specification\<close>

definition is_pow2 :: "size_t \<Rightarrow> bool" where
  "is_pow2 n \<longleftrightarrow> (\<exists>k<64. n = 2 ^ k)"

text \<open>The capacity bounds of the specification.\<close>

definition cap_inv :: "pipe \<Rightarrow> bool" where
  "cap_inv p \<longleftrightarrow>
     min_cap p \<le> capacity p \<and> capacity p \<le> max_cap p \<and> elem_count p \<le> capacity p"

text \<open>
  The state of the memory that the copies rely on: the block has \<open>bufend\<close> bytes, which
  is \<open>elem_size * capacity\<close> without wrap-around; \<open>begin_ptr\<close> is inside the block; and
  \<open>end_ptr\<close> is \<open>begin_ptr\<close> advanced by the stored bytes, modulo the size of the
  block. A full buffer (\<open>elem_count = capacity\<close>, cursors equal) is allowed.
\<close>

definition mem_ok :: "pipe \<Rightarrow> bool" where
  "mem_ok p \<longleftrightarrow>
     (case buffer p of
        None \<Rightarrow> False
      | Some buf \<Rightarrow>
          length buf = unat (bufend p) \<and>
          elem_size p \<noteq> 0 \<and>
          unat (elem_size p) * unat (capacity p) < 2 ^ 64 \<and>
          bufend p = elem_size p * capacity p \<and>
          elem_count p \<le> capacity p \<and>
          begin_ptr p < bufend p \<and>
          unat (end_ptr p) =
            (unat (begin_ptr p) + unat (elem_size p) * unat (elem_count p)) mod unat (bufend p))"

text \<open>
  A pipe that holds three one-byte elements: the state a release build reaches from
  \<open>pipe_new RELEASE 1 0\<close> by pushing the bytes 1, 2, 3.
\<close>

definition three_bytes :: pipe where
  "three_bytes =
     \<lparr> elem_size = 1, elem_count = 3, capacity = 32, min_cap = 32, max_cap = NOT 0,
       buffer = Some ([1, 2, 3] @ replicate 29 0),
       bufend = 32, begin_ptr = 0, end_ptr = 3,
       producer_refcount = 1, consumer_refcount = 1 \<rparr>"

text \<open>
  What holds while a pipe filled by one push is drained one element at a time, with
  \<open>j\<close> elements left: the capacity is a power of two, and it is the floor or less than
  four times the count.
\<close>

definition draining :: "build \<Rightarrow> size_t \<Rightarrow> pipe \<Rightarrow> nat \<Rightarrow> bool" where
  "draining b es p j \<longleftrightarrow>
     mem_ok p \<and> unat (elem_count p) = j \<and> elem_size p = es \<and>
     min_cap p = DEFAULT_MINCAP b \<and> max_cap p = NOT 0 \<and>
     is_pow2 (capacity p) \<and> DEFAULT_MINCAP b \<le> capacity p \<and>
     (capacity p = DEFAULT_MINCAP b \<or> unat (capacity p) div 4 < j)"

text \<open>The bytes 1, 2, ..., \<open>n\<close>.\<close>

definition first_bytes :: "nat \<Rightarrow> byte list" where
  "first_bytes n = map of_nat [1..<Suc n]"

text \<open>The loop of \<^verbatim>\<open>next_pow2\<close> on its own, for the lemmas about it.\<close>

definition smear :: "size_t \<Rightarrow> size_t" where
  "smear w = fold (\<lambda>shift n. n OR drop_bit shift n) [1, 2, 4, 8, 16, 32] w"

section \<open>Lemmas: \<^verbatim>\<open>next_pow2\<close>\<close>

lemma smear_step:
  fixes x w :: size_t
  assumes "\<And>i. bit x i \<longleftrightarrow> (\<exists>d<k. bit w (i + d))"
  shows "bit (x OR drop_bit k x) i \<longleftrightarrow> (\<exists>d<2 * k. bit w (i + d))"
proof -
  have "bit (x OR drop_bit k x) i \<longleftrightarrow> bit x i \<or> bit x (k + i)"
    by (simp add: bit_or_iff bit_drop_bit_eq)
  also have "\<dots> \<longleftrightarrow> (\<exists>d<k. bit w (i + d)) \<or> (\<exists>d<k. bit w (k + i + d))"
    by (simp add: assms)
  also have "\<dots> \<longleftrightarrow> (\<exists>d<2 * k. bit w (i + d))"
  proof
    assume "(\<exists>d<k. bit w (i + d)) \<or> (\<exists>d<k. bit w (k + i + d))"
    then show "\<exists>d<2 * k. bit w (i + d)"
    proof
      assume "\<exists>d<k. bit w (i + d)"
      then obtain d where "d < k" "bit w (i + d)" by blast
      then show ?thesis by (intro exI [of _ d]) simp
    next
      assume "\<exists>d<k. bit w (k + i + d)"
      then obtain d where "d < k" "bit w (k + i + d)" by blast
      then show ?thesis by (intro exI [of _ "k + d"]) (simp add: ac_simps)
    qed
  next
    assume "\<exists>d<2 * k. bit w (i + d)"
    then obtain d where d: "d < 2 * k" "bit w (i + d)" by blast
    show "(\<exists>d<k. bit w (i + d)) \<or> (\<exists>d<k. bit w (k + i + d))"
    proof (cases "d < k")
      case True
      with d show ?thesis by blast
    next
      case False
      with d have "d - k < k" "bit w (k + i + (d - k))" by (simp_all add: ac_simps)
      then show ?thesis by blast
    qed
  qed
  finally show ?thesis .
qed

lemma bit_smear: "bit (smear w) i \<longleftrightarrow> (\<exists>j\<ge>i. bit w j)"
proof -
  define x1 where "x1 = w OR drop_bit 1 w"
  define x2 where "x2 = x1 OR drop_bit 2 x1"
  define x3 where "x3 = x2 OR drop_bit 4 x2"
  define x4 where "x4 = x3 OR drop_bit 8 x3"
  define x5 where "x5 = x4 OR drop_bit 16 x4"
  define x6 where "x6 = x5 OR drop_bit 32 x5"
  have s: "smear w = x6"
    by (simp add: smear_def x1_def x2_def x3_def x4_def x5_def x6_def)
  have b0: "bit w i \<longleftrightarrow> (\<exists>d<1. bit w (i + d))" for i by simp
  have b1: "bit x1 i \<longleftrightarrow> (\<exists>d<2. bit w (i + d))" for i
    unfolding x1_def using smear_step [of w 1 w i, OF b0] by simp
  have b2: "bit x2 i \<longleftrightarrow> (\<exists>d<4. bit w (i + d))" for i
    unfolding x2_def using smear_step [of x1 2 w i, OF b1] by simp
  have b3: "bit x3 i \<longleftrightarrow> (\<exists>d<8. bit w (i + d))" for i
    unfolding x3_def using smear_step [of x2 4 w i, OF b2] by simp
  have b4: "bit x4 i \<longleftrightarrow> (\<exists>d<16. bit w (i + d))" for i
    unfolding x4_def using smear_step [of x3 8 w i, OF b3] by simp
  have b5: "bit x5 i \<longleftrightarrow> (\<exists>d<32. bit w (i + d))" for i
    unfolding x5_def using smear_step [of x4 16 w i, OF b4] by simp
  have b6: "bit x6 i \<longleftrightarrow> (\<exists>d<64. bit w (i + d))" for i
    unfolding x6_def using smear_step [of x5 32 w i, OF b5] by simp
  show ?thesis
  proof
    assume "bit (smear w) i"
    with s b6 obtain d where "bit w (i + d)" by auto
    then show "\<exists>j\<ge>i. bit w j" by (intro exI [of _ "i + d"]) simp
  next
    assume "\<exists>j\<ge>i. bit w j"
    then obtain j where j: "i \<le> j" "bit w j" by blast
    then have "j < 64" using bit_imp_le_length [of w j] by simp
    with j have "j - i < 64" "bit w (i + (j - i))" by simp_all
    with s b6 show "bit (smear w) i" by blast
  qed
qed

lemma smear_is_mask: "\<exists>k\<le>64. smear w = mask k \<and> (\<forall>i. bit w i \<longrightarrow> i < k) \<and> (k \<noteq> 0 \<longrightarrow> bit w (k - 1))"
proof -
  define k where "k = (LEAST i. \<not> bit (smear w) i)"
  have n64: "\<not> bit (smear w) 64" using bit_imp_le_length [of "smear w" 64] by auto
  have nk: "\<not> bit (smear w) k" unfolding k_def using n64 by (rule LeastI)
  have k64: "k \<le> 64" unfolding k_def using n64 by (rule Least_le)
  have below: "bit (smear w) i" if "i < k" for i
    using that not_less_Least [of i "\<lambda>i. \<not> bit (smear w) i"] by (auto simp: k_def)
  have above: "\<not> bit (smear w) i" if "k \<le> i" for i
    using that nk by (auto simp: bit_smear)
  have eq: "smear w = mask k"
  proof (rule bit_word_eqI)
    fix n assume "n < LENGTH(64)"
    show "bit (smear w) n \<longleftrightarrow> bit (mask k :: size_t) n"
    proof (cases "n < k")
      case True
      with below [of n] \<open>n < LENGTH(64)\<close> show ?thesis by (simp add: bit_mask_iff)
    next
      case False
      with above [of n] show ?thesis by (simp add: bit_mask_iff)
    qed
  qed
  have sub: "bit w i \<Longrightarrow> i < k" for i
    using above [of i] by (auto simp: bit_smear) (meson not_le order_refl)
  have top: "bit w (k - 1)" if "k \<noteq> 0"
  proof -
    from that have "bit (smear w) (k - 1)" by (intro below) simp
    then obtain j where j: "k - 1 \<le> j" "bit w j" by (auto simp: bit_smear)
    with sub [of j] that have "j = k - 1" by simp
    with j show ?thesis by simp
  qed
  from k64 eq sub top show ?thesis by blast
qed

lemma top_eq: "drop_bit 1 (NOT 0 :: size_t) + 1 = 2 ^ 63"
  by (simp add: mask_eq_exp_minus_1)

lemma next_pow2_alt:
  "next_pow2 n = (if n \<ge> 2 ^ 63 then n else smear (n - 1) + 1)"
  unfolding next_pow2_def smear_def Let_def top_eq by simp

lemma unat_pow2: "k < 64 \<Longrightarrow> unat (2 ^ k :: size_t) = 2 ^ k"
proof -
  assume k: "k < 64"
  have "(2 ^ k :: size_t) = of_nat (2 ^ k)" by simp
  then have "unat (2 ^ k :: size_t) = (2 ^ k) mod 2 ^ 64"
    by (simp only: unat_of_nat) simp
  moreover have "(2 ^ k :: nat) < 2 ^ 64" using k by (intro power_strict_increasing) simp_all
  ultimately show ?thesis by simp
qed

lemma bits_below_imp_less:
  fixes w :: size_t
  assumes "\<And>i. bit w i \<Longrightarrow> i < k"
  shows "unat w < 2 ^ k"
proof -
  have "take_bit k w = w"
    by (rule bit_word_eqI) (use assms in \<open>auto simp: bit_take_bit_iff\<close>)
  then have "take_bit k (unat w) = unat w"
    by (metis unsigned_take_bit_eq)
  then show ?thesis by (simp add: take_bit_nat_eq_self_iff)
qed

lemma bit_imp_ge:
  fixes w :: size_t
  assumes "bit w i"
  shows "2 ^ i \<le> unat w"
proof (rule ccontr)
  assume "\<not> 2 ^ i \<le> unat w"
  then have "take_bit i (unat w) = unat w" by (simp add: take_bit_nat_eq_self_iff)
  moreover have "bit (unat w) i" using assms by (simp add: bit_unsigned_iff)
  ultimately have "bit (take_bit i (unat w)) i" by simp
  then show False by (simp add: bit_take_bit_iff)
qed

lemma next_pow2_small:
  assumes "n \<noteq> 0" "n < 2 ^ 63"
  shows "\<exists>k<64. next_pow2 n = 2 ^ k \<and> unat n \<le> 2 ^ k \<and> (2 ^ k :: nat) div 2 < unat n"
proof -
  define w where "w = n - 1"
  from smear_is_mask [of w] obtain k where k: "k \<le> 64" "smear w = mask k"
    "\<And>i. bit w i \<Longrightarrow> i < k" "k \<noteq> 0 \<Longrightarrow> bit w (k - 1)" by blast
  have un: "unat w = unat n - 1" "0 < unat n"
    using assms(1) by (simp_all add: w_def unat_minus_one unat_gt_0)
  have w63: "unat w < 2 ^ 63" using un assms(2) by (simp add: word_less_nat_alt)
  have k63: "k < 64"
  proof (rule ccontr)
    assume "\<not> k < 64"
    with k(1) have "k = 64" by simp
    with k(4) have "bit w 63" by simp
    from bit_imp_ge [OF this] w63 show False by simp
  qed
  have np: "next_pow2 n = 2 ^ k"
    using assms(2) k(2) by (simp add: next_pow2_alt w_def mask_eq_exp_minus_1 not_le [symmetric])
  have le: "unat n \<le> 2 ^ k"
    using bits_below_imp_less [of w k] k(3) un by simp
  have half: "(2 ^ k :: nat) div 2 < unat n"
  proof (cases "k = 0")
    case True
    with un show ?thesis by simp
  next
    case False
    from bit_imp_ge [OF k(4) [OF False]] have "2 ^ (k - 1) \<le> unat w" .
    moreover have "(2 ^ k :: nat) div 2 = 2 ^ (k - 1)" using False by (cases k) simp_all
    ultimately show ?thesis using un by simp
  qed
  from k63 np le half show ?thesis by blast
qed

lemma next_pow2_ge: "n \<le> next_pow2 n"
proof (cases "n = 0 \<or> 2 ^ 63 \<le> n")
  case True
  then show ?thesis by (auto simp: next_pow2_alt)
next
  case False
  then have "n \<noteq> 0" "n < 2 ^ 63" by (simp_all add: not_le)
  from next_pow2_small [OF this] obtain k where "k < 64" "next_pow2 n = 2 ^ k" "unat n \<le> 2 ^ k"
    by blast
  then show ?thesis by (simp add: word_le_nat_alt unat_pow2)
qed

lemma next_pow2_is_pow2:
  assumes "n \<noteq> 0" "n \<le> 2 ^ 63"
  shows "is_pow2 (next_pow2 n)"
proof (cases "n = 2 ^ 63")
  case True
  then show ?thesis by (auto simp: next_pow2_alt is_pow2_def intro: exI [of _ 63])
next
  case False
  with assms have "n < 2 ^ 63" by simp
  from next_pow2_small [OF assms(1) this] show ?thesis by (auto simp: is_pow2_def)
qed

lemma next_pow2_half_less:
  assumes "n \<noteq> 0"
  shows "next_pow2 n div 2 < n"
proof (cases "2 ^ 63 \<le> n")
  case True
  then have "next_pow2 n = n" by (simp add: next_pow2_alt)
  moreover have "unat n div 2 < unat n" using assms by (simp add: unat_gt_0)
  ultimately show ?thesis by (simp add: word_less_nat_alt unat_div)
next
  case False
  then have "n < 2 ^ 63" by (simp add: not_le)
  from next_pow2_small [OF assms this] obtain k where "k < 64" "next_pow2 n = 2 ^ k"
    "(2 ^ k :: nat) div 2 < unat n" by blast
  then show ?thesis by (simp add: word_less_nat_alt unat_div unat_pow2)
qed

lemma next_pow2_fixed:
  assumes "is_pow2 n"
  shows "next_pow2 n = n"
proof -
  from assms obtain a where a: "a < 64" "n = 2 ^ a" by (auto simp: is_pow2_def)
  show ?thesis
  proof (cases "a = 63")
    case True
    with a show ?thesis by (simp add: next_pow2_alt)
  next
    case False
    with a have a63: "a < 63" by simp
    have un: "unat n = 2 ^ a" using a by (simp add: unat_pow2)
    have "(2 :: nat) ^ a < 2 ^ 63" using a63 by (intro power_strict_increasing) simp_all
    then have lt: "n < 2 ^ 63" using un by (simp add: word_less_nat_alt)
    have nz: "n \<noteq> 0" using un by (auto simp: unat_eq_zero [symmetric] simp del: unat_eq_zero)
    from next_pow2_small [OF nz lt] obtain k where k: "k < 64" "next_pow2 n = 2 ^ k"
      "unat n \<le> 2 ^ k" "(2 ^ k :: nat) div 2 < unat n" by blast
    from k(3) un have "(2 :: nat) ^ a \<le> 2 ^ k" by simp
    then have ak: "a \<le> k" by (rule power_le_imp_le_exp [rotated]) simp
    have "k \<le> a"
    proof (cases k)
      case 0
      then show ?thesis by simp
    next
      case (Suc k')
      with k(4) un have "(2 :: nat) ^ k' < 2 ^ a" by simp
      then have "k' < a" by (rule power_less_imp_less_exp [rotated]) simp
      with Suc show ?thesis by simp
    qed
    with ak have "k = a" by simp
    with k(2) a show ?thesis by simp
  qed
qed

section \<open>Lemmas: what each function does to the counters\<close>

lemma resize_buffer_fields:
  assumes "resize_buffer p n = Some p'"
  shows "elem_size p' = elem_size p" and "elem_count p' = elem_count p"
    and "min_cap p' = min_cap p" and "max_cap p' = max_cap p"
    and "producer_refcount p' = producer_refcount p"
    and "consumer_refcount p' = consumer_refcount p"
  using assms
  by (auto simp: resize_buffer_def Let_def fix_bufend_def bind_eq_Some_conv split: if_splits)

lemma resize_buffer_capacity:
  assumes "resize_buffer p n = Some p'"
  shows "capacity p' =
     (let m = (if n \<ge> max_cap p then max_cap p else n)
      in if m \<le> elem_count p \<or> m < min_cap p then capacity p else m)"
  using assms
  by (auto simp: resize_buffer_def Let_def fix_bufend_def bind_eq_Some_conv split: if_splits)

lemma push_without_locking_fields:
  assumes "push_without_locking p elems k = Some p'"
  shows "elem_size p' = elem_size p" and "elem_count p' = elem_count p + k"
    and "min_cap p' = min_cap p" and "max_cap p' = max_cap p"
    and "producer_refcount p' = producer_refcount p"
    and "consumer_refcount p' = consumer_refcount p"
  using assms
  by (auto simp: push_without_locking_def Let_def bind_eq_Some_conv
      dest: resize_buffer_fields split: if_splits)

lemma push_without_locking_capacity:
  assumes "push_without_locking p elems k = Some p'"
  shows "if elem_count p + k > capacity p
         then \<exists>q. resize_buffer p (next_pow2 (elem_count p + k)) = Some q \<and> capacity p' = capacity q
         else capacity p' = capacity p"
  using assms
  by (auto simp: push_without_locking_def Let_def bind_eq_Some_conv split: if_splits)

lemma pop_without_locking_fields:
  assumes "pop_without_locking p count = Some (p', t, r)"
  shows "elem_size p' = elem_size p" and "elem_count p' = elem_count p - min count (elem_count p)"
    and "min_cap p' = min_cap p" and "max_cap p' = max_cap p"
    and "producer_refcount p' = producer_refcount p"
    and "consumer_refcount p' = consumer_refcount p"
    and "r = min count (elem_count p)"
  using assms
  by (auto simp: pop_without_locking_def Let_def bind_eq_Some_conv
      dest: resize_buffer_fields split: if_splits)

lemma pop_without_locking_pop_copy:
  "pop_without_locking p count =
     do {
       (p2, target, ret) \<leftarrow> pop_copy p count;
       p' \<leftarrow> (if elem_count p2 \<le> capacity p2 div 4
              then resize_buffer p2 (capacity p2 div 2)
              else Some p2);
       Some (p', target, ret)
     }"
  unfolding pop_without_locking_def pop_copy_def Let_def
  by (auto split: Option.bind_splits if_splits)

lemma pop_copy_SomeD:
  assumes "pop_copy p count = Some (p2, t, r)"
  shows "\<exists>bg. p2 = p\<lparr>elem_count := elem_count p - min count (elem_count p), begin_ptr := bg\<rparr>"
    and "r = min count (elem_count p)"
  using assms unfolding pop_copy_def Let_def
  by (auto split: Option.bind_splits if_splits)

lemma mem_read_length:
  assumes "mem_read blk off n = Some bytes"
  shows "length bytes = unat n"
  using assms by (auto simp: mem_read_def split: option.splits if_splits)

lemma pop_copy_length:
  assumes "pop_copy p count = Some (p2, t, r)"
  shows "length t = unat (r * elem_size p)"
proof -
  define tot where "tot = min count (elem_count p) * elem_size p"
  define first where "first = min tot (bufend p - begin_ptr p)"
  have fl: "first \<le> tot" by (simp add: first_def)
  from assms obtain t1 t2 where t: "t = t1 @ t2"
    and r1: "mem_read (buffer p) (begin_ptr p) first = Some t1"
    and r2: "if tot - first > 0 then mem_read (buffer p) 0 (tot - first) = Some t2 else t2 = []"
    unfolding pop_copy_def Let_def tot_def first_def
    by (auto split: Option.bind_splits if_splits)
  have "length t2 = unat (tot - first)"
  proof (cases "tot - first > 0")
    case True
    with r2 show ?thesis by (simp add: mem_read_length)
  next
    case False
    then have "tot - first = 0" by (simp add: word_greater_zero_iff)
    with False r2 show ?thesis by simp
  qed
  with mem_read_length [OF r1] t fl have "length t = unat tot"
    by (simp add: unat_sub word_le_nat_alt)
  moreover from pop_copy_SomeD(2) [OF assms] have "tot = r * elem_size p" by (simp add: tot_def)
  ultimately show ?thesis by simp
qed

lemma pop_without_locking_length:
  assumes "pop_without_locking p count = Some (p', t, r)"
  shows "length t = unat (r * elem_size p)"
proof -
  from assms obtain p2 where "pop_copy p count = Some (p2, t, r)"
    by (auto simp: pop_without_locking_pop_copy split: Option.bind_splits)
  then show ?thesis by (rule pop_copy_length)
qed

lemma pipe_pop_returnedD:
  assumes "pipe_pop p count = Pop_returned p' t r"
  shows "r = min (min count (max_cap p)) (elem_count p)"
    and "elem_count p' = elem_count p - r"
    and "length t = unat (r * elem_size p)"
    and "\<not> (elem_count p < min count (max_cap p) \<and> producer_refcount p \<noteq> 0)"
proof -
  define n where "n = (if count > max_cap p then max_cap p else count)"
  have n: "n = min count (max_cap p)" by (auto simp: n_def min_def)
  from assms have nw: "\<not> (elem_count p < n \<and> producer_refcount p > 0)"
    by (auto simp: pipe_pop_def n_def Let_def split: if_splits)
  then show "\<not> (elem_count p < min count (max_cap p) \<and> producer_refcount p \<noteq> 0)"
    by (simp add: n word_greater_zero_iff)
  have "r = min n (elem_count p) \<and> elem_count p' = elem_count p - r \<and>
        length t = unat (r * elem_size p)"
  proof (cases "elem_count p = 0")
    case True
    with assms nw have "p' = p \<and> t = [] \<and> r = 0"
      by (auto simp: pipe_pop_def n_def Let_def split: if_splits)
    with True show ?thesis by simp
  next
    case False
    then have "elem_count p > 0" by (simp add: word_greater_zero_iff)
    with assms nw have pw: "pop_without_locking p n = Some (p', t, r)"
      by (auto simp: pipe_pop_def n_def Let_def split: if_splits option.splits)
    from pop_without_locking_fields(2,7) [OF pw] pop_without_locking_length [OF pw]
    show ?thesis by simp
  qed
  then show "r = min (min count (max_cap p)) (elem_count p)"
    and "elem_count p' = elem_count p - r"
    and "length t = unat (r * elem_size p)" by (simp_all add: n)
qed


lemma pop_without_locking_SomeD:
  assumes "pop_without_locking p count = Some (p', t, r)"
  obtains b where
    "(if elem_count p - min count (elem_count p) \<le> capacity p div 4
      then resize_buffer (p\<lparr>elem_count := elem_count p - min count (elem_count p), begin_ptr := b\<rparr>)
             (capacity p div 2)
      else Some (p\<lparr>elem_count := elem_count p - min count (elem_count p), begin_ptr := b\<rparr>)) = Some p'"
  using assms
  by (auto simp: pop_without_locking_def Let_def bind_eq_Some_conv split: if_splits)

lemma pop_without_locking_capacity:
  assumes "pop_without_locking p count = Some (p', t, r)"
  shows "capacity p' = capacity p \<or>
         (capacity p' = (if capacity p div 2 \<ge> max_cap p then max_cap p else capacity p div 2) \<and>
          elem_count p' < capacity p' \<and> min_cap p \<le> capacity p')"
proof -
  from assms obtain b where b:
    "(if elem_count p - min count (elem_count p) \<le> capacity p div 4
      then resize_buffer (p\<lparr>elem_count := elem_count p - min count (elem_count p), begin_ptr := b\<rparr>)
             (capacity p div 2)
      else Some (p\<lparr>elem_count := elem_count p - min count (elem_count p), begin_ptr := b\<rparr>)) = Some p'"
    by (rule pop_without_locking_SomeD)
  show ?thesis
  proof (cases "elem_count p - min count (elem_count p) \<le> capacity p div 4")
    case True
    with b have r: "resize_buffer (p\<lparr>elem_count := elem_count p - min count (elem_count p), begin_ptr := b\<rparr>)
             (capacity p div 2) = Some p'" by simp
    from resize_buffer_capacity [OF r] resize_buffer_fields(2) [OF r]
    show ?thesis by (auto simp: Let_def not_le not_less split: if_splits)
  next
    case False
    with b show ?thesis by auto
  qed
qed

lemma push_locked_PushedD:
  assumes "push_locked p elems count = Pushed p' k"
  shows "k = min count (max_cap p - elem_count p)"
    and "push_without_locking p elems k = Some p'"
    and "elem_count p \<noteq> max_cap p"
  using assms
  by (auto simp: push_locked_def Let_def word_greater_zero_iff split: if_splits option.splits)

lemma add_chunk_no_wrap:
  fixes ec k mc :: size_t
  assumes "ec \<le> mc" and "k \<le> mc - ec"
  shows "unat (ec + k) = unat ec + unat k" and "ec + k \<le> mc"
proof -
  from assms have "unat k \<le> unat mc - unat ec" and "unat ec \<le> unat mc"
    by (simp_all add: word_le_nat_alt unat_sub)
  then have le: "unat ec + unat k \<le> unat mc" by simp
  moreover have "unat mc < 2 ^ 64" using unsigned_less [of mc] by simp
  ultimately have lt: "unat ec + unat k < 2 ^ LENGTH(64)" by simp
  then show eq: "unat (ec + k) = unat ec + unat k" by (simp only: unat_add_lem [THEN iffD1])
  with le show "ec + k \<le> mc" by (simp add: word_le_nat_alt)
qed

lemma push_locked_cap_inv:
  assumes "cap_inv p" and "push_locked p elems count = Pushed p' k"
  shows "cap_inv p'"
proof -
  note d = push_locked_PushedD [OF assms(2)]
  note f = push_without_locking_fields [OF d(2)]
  from assms(1) have inv: "min_cap p \<le> capacity p" "capacity p \<le> max_cap p"
    "elem_count p \<le> capacity p" by (simp_all add: cap_inv_def)
  then have ecmc: "elem_count p \<le> max_cap p" by simp
  have kle: "k \<le> max_cap p - elem_count p" using d(1) by simp
  note nw = add_chunk_no_wrap [OF ecmc kle]
  show ?thesis
  proof (cases "elem_count p + k > capacity p")
    case False
    with push_without_locking_capacity [OF d(2)] have "capacity p' = capacity p" by simp
    with False inv f show ?thesis by (simp add: cap_inv_def not_less)
  next
    case True
    with push_without_locking_capacity [OF d(2)] obtain q where
      q: "resize_buffer p (next_pow2 (elem_count p + k)) = Some q" "capacity p' = capacity q"
      by auto
    define m where "m = (if next_pow2 (elem_count p + k) \<ge> max_cap p then max_cap p
                         else next_pow2 (elem_count p + k))"
    have m_ge: "elem_count p + k \<le> m"
      using nw(2) next_pow2_ge [of "elem_count p + k"] by (simp add: m_def)
    have m_le: "m \<le> max_cap p" by (auto simp: m_def)
    from m_ge True inv have "\<not> (m \<le> elem_count p \<or> m < min_cap p)" by auto
    with resize_buffer_capacity [OF q(1)] have "capacity q = m" by (simp add: m_def Let_def)
    with q(2) m_ge m_le True inv f show ?thesis by (auto simp: cap_inv_def)
  qed
qed

lemma pop_without_locking_cap_inv:
  assumes "cap_inv p" and "pop_without_locking p count = Some (p', t, r)"
  shows "cap_inv p'"
proof -
  note f = pop_without_locking_fields [OF assms(2)]
  from assms(1) have inv: "min_cap p \<le> capacity p" "capacity p \<le> max_cap p"
    "elem_count p \<le> capacity p" by (simp_all add: cap_inv_def)
  have ec: "elem_count p' \<le> elem_count p"
    unfolding f(2) by (simp add: word_le_nat_alt unat_sub min_def)
  from pop_without_locking_capacity [OF assms(2)] show ?thesis
  proof
    assume "capacity p' = capacity p"
    with inv ec f show ?thesis by (simp add: cap_inv_def)
  next
    assume a: "capacity p' = (if capacity p div 2 \<ge> max_cap p then max_cap p else capacity p div 2) \<and>
          elem_count p' < capacity p' \<and> min_cap p \<le> capacity p'"
    then have "capacity p' \<le> max_cap p" by (auto split: if_splits)
    moreover from a have "elem_count p' < capacity p'" and "min_cap p \<le> capacity p'"
      by blast+
    then have "elem_count p' \<le> capacity p'" "min_cap p' \<le> capacity p'"
      using f(3) by simp_all
    ultimately show ?thesis using f(4) by (simp add: cap_inv_def)
  qed
qed

lemma pipe_pop_cap_inv:
  assumes "cap_inv p" and "pipe_pop p count = Pop_returned p' t r"
  shows "cap_inv p'"
  using assms
  by (auto simp: pipe_pop_def Let_def split: if_splits option.splits
      dest: pop_without_locking_cap_inv)

lemma pipe_reserve_fields:
  assumes "pipe_reserve b p n = Some p'"
  shows "elem_size p' = elem_size p" and "elem_count p' = elem_count p"
    and "max_cap p' = max_cap p"
    and "producer_refcount p' = producer_refcount p"
    and "consumer_refcount p' = consumer_refcount p"
  using assms
  by (auto simp: pipe_reserve_def Let_def dest: resize_buffer_fields split: if_splits)

lemma pipe_reserve_cap_inv:
  assumes "cap_inv p" and "pipe_reserve b p n = Some p'"
  shows "cap_inv p'"
proof -
  define c where "c = (if n = 0 then DEFAULT_MINCAP b else n)"
  from assms(1) have inv: "min_cap p \<le> capacity p" "capacity p \<le> max_cap p"
    "elem_count p \<le> capacity p" by (simp_all add: cap_inv_def)
  show ?thesis
  proof (cases "c \<le> elem_count p")
    case True
    with assms show ?thesis by (simp add: pipe_reserve_def c_def Let_def)
  next
    case False
    define p1 where "p1 = p\<lparr>min_cap := min c (max_cap p)\<rparr>"
    from False assms(2) have r: "resize_buffer p1 c = Some p'"
      by (simp add: pipe_reserve_def c_def Let_def p1_def)
    have m: "(if c \<ge> max_cap p1 then max_cap p1 else c) = min c (max_cap p)"
      by (auto simp: p1_def min_def)
    from resize_buffer_capacity [OF r] resize_buffer_fields [OF r] inv
    show ?thesis
      unfolding m Let_def by (auto simp: cap_inv_def p1_def not_le not_less split: if_splits)
  qed
qed

lemma exec_cap_inv:
  assumes "cap_inv p" and "exec b x p = Some p'"
  shows "cap_inv p'"
proof (cases x)
  case (Push elems count)
  with assms show ?thesis
    by (auto split: if_splits push_section.splits dest: push_locked_cap_inv)
next
  case (Pop count)
  with assms show ?thesis
    by (auto split: pop_result.splits dest: pipe_pop_cap_inv)
next
  case (Reserve count)
  with assms show ?thesis by (auto dest: pipe_reserve_cap_inv)
next
  case Producer_new
  with assms show ?thesis by (auto simp: cap_inv_def pipe_producer_new_def)
next
  case Consumer_new
  with assms show ?thesis by (auto simp: cap_inv_def pipe_consumer_new_def)
qed

lemma exec_max_cap:
  assumes "exec b x p = Some p'"
  shows "max_cap p' = max_cap p"
proof (cases x)
  case (Push elems count)
  with assms show ?thesis
    by (auto split: if_splits push_section.splits
        dest!: push_locked_PushedD(2) push_without_locking_fields(4))
next
  case (Pop count)
  with assms show ?thesis
    by (auto simp: pipe_pop_def Let_def split: pop_result.splits if_splits option.splits
        dest!: pop_without_locking_fields(4))
next
  case (Reserve count)
  with assms show ?thesis by (auto dest: pipe_reserve_fields)
next
  case Producer_new
  with assms show ?thesis by (auto simp: pipe_producer_new_def)
next
  case Consumer_new
  with assms show ?thesis by (auto simp: pipe_consumer_new_def)
qed

lemma run_cap_inv:
  assumes "cap_inv p" and "run b xs p = Some p'"
  shows "cap_inv p' \<and> max_cap p' = max_cap p"
  using assms
proof (induction xs arbitrary: p)
  case Nil
  then show ?case by simp
next
  case (Cons x xs)
  from Cons.prems(2) obtain q where q: "exec b x p = Some q" "run b xs q = Some p'"
    by (auto split: option.splits)
  from exec_cap_inv [OF Cons.prems(1) q(1)] have "cap_inv q" .
  from Cons.IH [OF this q(2)] exec_max_cap [OF q(1)] show ?case by simp
qed

lemma floor_le_next_pow2: "DEFAULT_MINCAP b \<le> next_pow2 (max limit (DEFAULT_MINCAP b))"
  using next_pow2_ge [of "max limit (DEFAULT_MINCAP b)"] by (simp add: max_def split: if_splits)

lemma floor_le_top: "DEFAULT_MINCAP b \<le> NOT 0"
  by (cases b) simp_all

lemma pipe_new_cap_inv: "cap_inv (pipe_new b es limit)"
  using floor_le_next_pow2 [of b limit] floor_le_top [of b]
  by (simp add: cap_inv_def pipe_new_def fix_bufend_def)

declare pipe_push.simps [simp del]










lemma pow2_and_pred:
  assumes "is_pow2 n"
  shows "n AND (n - 1) = 0"
proof -
  from assms obtain k where k: "k < 64" "n = 2 ^ k" by (auto simp: is_pow2_def)
  have "(2 ^ k :: size_t) AND mask k = 0"
    by (rule bit_word_eqI) (auto simp: bit_and_iff bit_exp_iff bit_mask_iff)
  with k show ?thesis by (simp add: mask_eq_exp_minus_1)
qed

lemma is_pow2_half:
  assumes "is_pow2 c" and "c div 2 \<noteq> 0"
  shows "is_pow2 (c div 2)"
proof -
  from assms(1) obtain k where k: "k < 64" "c = 2 ^ k" by (auto simp: is_pow2_def)
  have u: "unat (c div 2) = 2 ^ k div 2" using k by (simp add: unat_div unat_pow2)
  show ?thesis
  proof (cases k)
    case 0
    with u assms(2) show ?thesis by (simp add: unat_eq_zero [symmetric] del: unat_eq_zero)
  next
    case (Suc j)
    with u k have "unat (c div 2) = unat (2 ^ j :: size_t)" by (simp add: unat_pow2)
    then have "c div 2 = 2 ^ j" by (simp only: word_unat_eq_iff)
    moreover from Suc k have "j < 64" by simp
    ultimately show ?thesis unfolding is_pow2_def by blast
  qed
qed

lemma pipe_pop_pow2:
  assumes "is_pow2 (capacity p)" and "capacity p \<le> max_cap p"
    and "pipe_pop p count = Pop_returned p' t r"
  shows "is_pow2 (capacity p')"
proof (cases "p' = p")
  case True
  with assms show ?thesis by simp
next
  case False
  with assms(3) obtain c where c: "pop_without_locking p c = Some (p', t, r)"
    by (auto simp: pipe_pop_def Let_def split: if_splits option.splits)
  from pop_without_locking_capacity [OF c] show ?thesis
  proof
    assume "capacity p' = capacity p"
    with assms show ?thesis by simp
  next
    assume a: "capacity p' = (if capacity p div 2 \<ge> max_cap p then max_cap p else capacity p div 2) \<and>
          elem_count p' < capacity p' \<and> min_cap p \<le> capacity p'"
    then have nz: "capacity p' \<noteq> 0" by auto
    have "capacity p div 2 \<le> capacity p" by (simp add: word_le_nat_alt unat_div)
    with assms(2) have "(if capacity p div 2 \<ge> max_cap p then max_cap p else capacity p div 2) = capacity p div 2"
      by auto
    with a have "capacity p' = capacity p div 2" by simp
    with nz is_pow2_half [OF assms(1)] show ?thesis by simp
  qed
qed

lemma push_locked_pow2:
  assumes "is_pow2 (capacity p)" and "cap_inv p"
    and "is_pow2 (max_cap p) \<or> max_cap p = NOT 0"
    and "push_locked p elems count = Pushed p' k"
    and "unat (elem_count p) + unat k \<le> 2 ^ 63"
  shows "is_pow2 (capacity p')"
proof -
  note d = push_locked_PushedD [OF assms(4)]
  from assms(2) have inv: "min_cap p \<le> capacity p" "capacity p \<le> max_cap p"
    "elem_count p \<le> capacity p" by (simp_all add: cap_inv_def)
  then have ecmc: "elem_count p \<le> max_cap p" by simp
  have kle: "k \<le> max_cap p - elem_count p" using d(1) by simp
  note nw = add_chunk_no_wrap [OF ecmc kle]
  show ?thesis
  proof (cases "elem_count p + k > capacity p")
    case False
    with push_without_locking_capacity [OF d(2)] assms(1) show ?thesis by simp
  next
    case True
    with push_without_locking_capacity [OF d(2)] obtain q where
      q: "resize_buffer p (next_pow2 (elem_count p + k)) = Some q" "capacity p' = capacity q"
      by auto
    define n where "n = elem_count p + k"
    have n63: "n \<le> 2 ^ 63" using nw(1) assms(5) by (simp add: n_def word_le_nat_alt)
    have nz: "n \<noteq> 0" using True by (auto simp: n_def)
    have np: "is_pow2 (next_pow2 n)" using nz n63 by (rule next_pow2_is_pow2)
    have np63: "next_pow2 n \<le> 2 ^ 63"
    proof (cases "n = 2 ^ 63")
      case True
      then show ?thesis by (simp add: next_pow2_alt)
    next
      case False
      with n63 have "n < 2 ^ 63" by simp
      from next_pow2_small [OF nz this] obtain j where j: "j < 64" "next_pow2 n = 2 ^ j"
        "(2 ^ j :: nat) div 2 < unat n" by blast
      have "unat n < 2 ^ 63" using \<open>n < 2 ^ 63\<close> by (simp add: word_less_nat_alt)
      with j(3) have "(2 ^ j :: nat) div 2 < 2 ^ 63" by simp
      then have "j \<le> 63" by (cases "j \<le> 63") (auto simp: not_le dest!: Suc_leI
            power_increasing [where a = "2 :: nat" and n = 64])
      then have "(2 ^ j :: nat) \<le> 2 ^ 63" by (intro power_increasing) simp_all
      with j show ?thesis by (simp add: word_le_nat_alt unat_pow2)
    qed
    define m where "m = (if next_pow2 n \<ge> max_cap p then max_cap p else next_pow2 n)"
    have m_pow2: "is_pow2 m"
    proof (cases "next_pow2 n \<ge> max_cap p")
      case False
      with np show ?thesis by (simp add: m_def)
    next
      case ge: True
      from assms(3) show ?thesis
      proof
        assume "is_pow2 (max_cap p)"
        with ge show ?thesis by (simp add: m_def)
      next
        assume "max_cap p = NOT 0"
        with ge np63 have "(NOT 0 :: size_t) \<le> 2 ^ 63" by (metis order_trans)
        moreover have "\<not> (NOT 0 :: size_t) \<le> 2 ^ 63" by code_simp
        ultimately show ?thesis by simp
      qed
    qed
    have m_ge: "n \<le> m"
      using nw(2) next_pow2_ge [of n] by (simp add: m_def n_def)
    from m_ge True inv have notm: "\<not> (m \<le> elem_count p \<or> m < min_cap p)"
      by (auto simp: n_def)
    from q(1) have "resize_buffer p (next_pow2 n) = Some q" by (simp add: n_def)
    from resize_buffer_capacity [OF this]
    have "capacity q = (if m \<le> elem_count p \<or> m < min_cap p then capacity p else m)"
      by (simp add: Let_def m_def)
    with notm have "capacity q = m" by simp
    with q(2) m_pow2 show ?thesis by simp
  qed
qed

lemma DEFAULT_MINCAP_pow2: "is_pow2 (DEFAULT_MINCAP b)"
proof (cases b)
  case DEBUG
  then show ?thesis by (auto simp: is_pow2_def intro: exI [of _ 1])
next
  case RELEASE
  then show ?thesis by (auto simp: is_pow2_def intro: exI [of _ 5])
qed

section \<open>Lemmas: the copies stay inside their blocks\<close>

lemma unat_add_nw:
  fixes a b :: size_t
  assumes "unat a + unat b < 2 ^ 64"
  shows "unat (a + b) = unat a + unat b"
  using assms unat_add_lem [of a b] by simp

lemma unat_mult_nw:
  fixes a b :: size_t
  assumes "unat a * unat b < 2 ^ 64"
  shows "unat (a * b) = unat a * unat b"
  using assms unat_mult_lem [of a b] by simp

lemma unat_min: "unat (min a b) = min (unat a) (unat b)"
  by (simp add: min_def word_le_nat_alt)

lemma unat_size_t_less: "unat (a :: size_t) < 2 ^ 64"
  using unsigned_less [of a] by simp

lemma mem_read_Some:
  assumes "unat off + unat n \<le> length b"
  shows "\<exists>bytes. mem_read (Some b) off n = Some bytes \<and> length bytes = unat n"
  using assms by (simp add: mem_read_def)

lemma mem_write_Some:
  assumes "unat off + length src \<le> length b"
  shows "\<exists>blk. mem_write b off src = Some blk \<and> length blk = length b"
  using assms by (simp add: mem_write_def)

lemma offset_memcpy_Some:
  assumes "unat src + unat n \<le> length sb" and "unat dest + unat n \<le> length db"
  shows "\<exists>blk. offset_memcpy db dest (Some sb) src n = Some (blk, dest + n) \<and>
               length blk = length db"
proof -
  from mem_read_Some [OF assms(1)] obtain bytes where
    r: "mem_read (Some sb) src n = Some bytes" "length bytes = unat n" by blast
  from assms(2) r(2) have "unat dest + length bytes \<le> length db" by simp
  from mem_write_Some [OF this] obtain blk where
    w: "mem_write db dest bytes = Some blk" "length blk = length db" by blast
  from r w show ?thesis by (simp add: offset_memcpy_def)
qed

text \<open>The facts of \<open>mem_ok\<close>, as natural numbers.\<close>

lemma mem_okD:
  assumes "mem_ok p"
  obtains buf where "buffer p = Some buf"
    and "length buf = unat (elem_size p) * unat (capacity p)"
    and "unat (bufend p) = unat (elem_size p) * unat (capacity p)"
    and "unat (elem_size p) * unat (capacity p) < 2 ^ 64"
    and "0 < unat (elem_size p)"
    and "unat (elem_count p) \<le> unat (capacity p)"
    and "unat (begin_ptr p) < unat (elem_size p) * unat (capacity p)"
    and "unat (end_ptr p) =
           (unat (begin_ptr p) + unat (elem_size p) * unat (elem_count p))
             mod (unat (elem_size p) * unat (capacity p))"
proof -
  from assms obtain buf where b: "buffer p = Some buf"
    and l: "length buf = unat (bufend p)"
    and es: "elem_size p \<noteq> 0"
    and nw: "unat (elem_size p) * unat (capacity p) < 2 ^ 64"
    and be: "bufend p = elem_size p * capacity p"
    and ec: "elem_count p \<le> capacity p"
    and bg: "begin_ptr p < bufend p"
    and en: "unat (end_ptr p) =
            (unat (begin_ptr p) + unat (elem_size p) * unat (elem_count p)) mod unat (bufend p)"
    by (auto simp: mem_ok_def split: option.splits)
  from be nw have ube: "unat (bufend p) = unat (elem_size p) * unat (capacity p)"
    by (simp add: unat_mult_nw)
  show thesis
  proof (rule that [OF b])
    show "length buf = unat (elem_size p) * unat (capacity p)" using l ube by simp
    show "unat (bufend p) = unat (elem_size p) * unat (capacity p)" by (rule ube)
    show "unat (elem_size p) * unat (capacity p) < 2 ^ 64" by (rule nw)
    show "0 < unat (elem_size p)" using es by (simp add: unat_gt_0)
    show "unat (elem_count p) \<le> unat (capacity p)" using ec by (simp add: word_le_nat_alt)
    show "unat (begin_ptr p) < unat (elem_size p) * unat (capacity p)"
      using bg ube by (simp add: word_less_nat_alt)
    show "unat (end_ptr p) =
           (unat (begin_ptr p) + unat (elem_size p) * unat (elem_count p))
             mod (unat (elem_size p) * unat (capacity p))"
      using en ube by simp
  qed
qed

text \<open>Where the cursors stand, from the modular equation.\<close>

lemma cursor_cases:
  fixes B E O' S :: nat
  assumes "E = (B + O') mod S" and "B < S" and "O' \<le> S"
  shows "E < S"
    and "B < E \<Longrightarrow> E - B = O'"
    and "E < B \<Longrightarrow> O' = E + S - B"
    and "E = B \<Longrightarrow> O' = 0 \<or> O' = S"
proof -
  show "E < S" using assms by simp
  have c: "(B + O' < S \<and> E = B + O') \<or> (S \<le> B + O' \<and> E = B + O' - S)"
  proof (cases "B + O' < S")
    case True
    with assms show ?thesis by simp
  next
    case False
    then have "S \<le> B + O'" by simp
    moreover from assms have "B + O' - S < S" by simp
    ultimately have "(B + O') mod S = B + O' - S"
      by (metis le_mod_geq mod_less)
    with assms False show ?thesis by simp
  qed
  show "B < E \<Longrightarrow> E - B = O'" using c assms by auto
  show "E < B \<Longrightarrow> O' = E + S - B" using c assms by auto
  show "E = B \<Longrightarrow> O' = 0 \<or> O' = S" using c assms by auto
qed

text \<open>
  On a pipe whose memory is in order, \<open>check_invariants\<close> holds exactly when the bounds on
  \<open>min_cap\<close> and \<open>capacity\<close> hold and the buffer is not full.
\<close>

lemma mem_ok_check_invariants:
  assumes ok: "mem_ok p"
  shows "check_invariants b p \<longleftrightarrow>
           DEFAULT_MINCAP b \<le> min_cap p \<and> min_cap p \<le> max_cap p \<and>
           min_cap p \<le> capacity p \<and> capacity p \<le> max_cap p \<and>
           elem_count p < capacity p"
proof -
  define S where "S = unat (elem_size p) * unat (capacity p)"
  define B where "B = unat (begin_ptr p)"
  define E where "E = unat (end_ptr p)"
  define Oc where "Oc = unat (elem_size p) * unat (elem_count p)"
  from ok obtain buf where buf: "buffer p = Some buf" and len: "length buf = S"
    and ube: "unat (bufend p) = S" and S64: "S < 2 ^ 64" and es: "0 < unat (elem_size p)"
    and ec: "unat (elem_count p) \<le> unat (capacity p)" and BS: "B < S"
    and cur: "E = (B + Oc) mod S"
    unfolding S_def B_def E_def Oc_def by (rule mem_okD)
  from ok have be_eq: "bufend p = elem_size p * capacity p" and esnz: "elem_size p \<noteq> 0"
    and ecw: "elem_count p \<le> capacity p"
    by (auto simp: mem_ok_def split: option.splits)
  have OS: "Oc \<le> S" unfolding Oc_def S_def using ec by simp
  note cc = cursor_cases [OF cur BS OS]
  have uO: "unat (elem_size p * elem_count p) = Oc"
    unfolding Oc_def using OS S64 by (intro unat_mult_nw) (simp add: Oc_def)
  have bb: "begin_ptr p \<le> bufend p" using BS ube by (simp add: word_le_nat_alt B_def)
  have ee: "end_ptr p \<le> bufend p" using cc(1) ube by (simp add: word_le_nat_alt E_def)
  have bne: "begin_ptr p \<noteq> bufend p" using BS ube by (auto simp: B_def)
  have usub: "unat (bufend p - begin_ptr p) = S - B"
    using bb ube by (simp add: unat_sub B_def)
  have full: "elem_count p < capacity p \<longleftrightarrow> Oc < S"
    using es by (simp add: word_less_nat_alt Oc_def S_def)
  have cursors: "(if wraps_around p
           then elem_size p * elem_count p = (end_ptr p - 0) + (bufend p - begin_ptr p)
           else elem_size p * elem_count p = end_ptr p - begin_ptr p) \<longleftrightarrow> Oc < S"
  proof (cases "wraps_around p")
    case True
    then have EB: "E < B" by (simp add: wraps_around_def word_less_nat_alt E_def B_def)
    from cc(3) [OF EB] have O_eq: "Oc = E + S - B" .
    have "unat (end_ptr p) + unat (bufend p - begin_ptr p) < 2 ^ 64"
      using usub O_eq OS S64 BS by (simp add: E_def)
    then have "unat ((end_ptr p - 0) + (bufend p - begin_ptr p)) = E + (S - B)"
      using usub by (simp add: unat_add_nw E_def)
    with O_eq BS uO have "elem_size p * elem_count p = (end_ptr p - 0) + (bufend p - begin_ptr p)"
      by (simp add: word_unat_eq_iff)
    moreover have "Oc < S" using O_eq EB BS by simp
    ultimately show ?thesis using True by simp
  next
    case False
    then have BE: "B \<le> E" by (simp add: wraps_around_def word_less_nat_alt E_def B_def)
    then have be: "begin_ptr p \<le> end_ptr p" by (simp add: word_le_nat_alt E_def B_def)
    have un: "unat (end_ptr p - begin_ptr p) = E - B"
      using be by (simp add: unat_sub E_def B_def)
    have "Oc = E - B \<longleftrightarrow> Oc < S"
    proof (cases "B < E")
      case True
      with cc(2) cc(1) show ?thesis by auto
    next
      case False
      with BE have "E = B" by simp
      from cc(4) [OF this] have "Oc = 0 \<or> Oc = S" .
      with \<open>E = B\<close> BS show ?thesis by auto
    qed
    then have "elem_size p * elem_count p = end_ptr p - begin_ptr p \<longleftrightarrow> Oc < S"
      using uO un by (simp add: word_unat_eq_iff)
    with False show ?thesis by simp
  qed
  show ?thesis
    unfolding check_invariants_def in_bounds_def
    using buf esnz ecw be_eq bb ee bne cursors full by auto
qed

lemma copy_pipe_into_new_buf_Some:
  assumes ok: "mem_ok p"
    and fits: "unat (elem_size p) * unat (elem_count p) \<le> length nb"
  shows "\<exists>blk e. copy_pipe_into_new_buf p nb = Some (blk, e) \<and> length blk = length nb \<and>
           (elem_count p < capacity p \<or> elem_count p = 0 \<longrightarrow>
              unat e = unat (elem_size p) * unat (elem_count p))"
proof -
  define S where "S = unat (elem_size p) * unat (capacity p)"
  define B where "B = unat (begin_ptr p)"
  define E where "E = unat (end_ptr p)"
  define Oc where "Oc = unat (elem_size p) * unat (elem_count p)"
  from ok obtain buf where buf: "buffer p = Some buf" and len: "length buf = S"
    and ube: "unat (bufend p) = S" and S64: "S < 2 ^ 64" and es: "0 < unat (elem_size p)"
    and ec: "unat (elem_count p) \<le> unat (capacity p)" and BS: "B < S"
    and cur: "E = (B + Oc) mod S"
    unfolding S_def B_def E_def Oc_def by (rule mem_okD)
  have OS: "Oc \<le> S" unfolding Oc_def S_def using ec by simp
  note cc = cursor_cases [OF cur BS OS]
  have bb: "begin_ptr p \<le> bufend p" using BS ube by (simp add: word_le_nat_alt B_def)
  have un1: "unat (bufend p - begin_ptr p) = S - B"
    using bb ube by (simp add: unat_sub B_def)
  show ?thesis
  proof (cases "wraps_around p")
    case True
    then have EB: "E < B" by (simp add: wraps_around_def word_less_nat_alt E_def B_def)
    from cc(3) [OF EB] have O_eq: "Oc = E + S - B" .
    have "unat (begin_ptr p) + unat (bufend p - begin_ptr p) \<le> length buf"
      using un1 BS len by (simp add: B_def)
    moreover have "unat (0 :: size_t) + unat (bufend p - begin_ptr p) \<le> length nb"
      using un1 O_eq fits BS by (simp add: Oc_def)
    ultimately obtain blk1 where
      c1: "offset_memcpy nb 0 (Some buf) (begin_ptr p) (bufend p - begin_ptr p) =
            Some (blk1, 0 + (bufend p - begin_ptr p))"
      and l1: "length blk1 = length nb"
      using offset_memcpy_Some by blast
    have uq: "unat (0 + (bufend p - begin_ptr p)) = S - B" using un1 by simp
    have ue: "unat (end_ptr p - 0) = E" by (simp add: E_def)
    have "unat (0 :: size_t) + unat (end_ptr p - 0) \<le> length buf"
      using ue cc(1) len by simp
    moreover have "unat (0 + (bufend p - begin_ptr p)) + unat (end_ptr p - 0) \<le> length blk1"
      using uq ue l1 O_eq fits BS by (simp add: Oc_def)
    ultimately obtain blk2 where
      c2: "offset_memcpy blk1 (0 + (bufend p - begin_ptr p)) (Some buf) 0 (end_ptr p - 0) =
            Some (blk2, 0 + (bufend p - begin_ptr p) + (end_ptr p - 0))"
      and l2: "length blk2 = length blk1"
      using offset_memcpy_Some by blast
    have "unat (0 + (bufend p - begin_ptr p)) + unat (end_ptr p - 0) < 2 ^ 64"
      using uq ue O_eq OS S64 BS by simp
    then have "unat (0 + (bufend p - begin_ptr p) + (end_ptr p - 0)) = S - B + E"
      using uq ue by (simp only: unat_add_nw)
    then have "unat (0 + (bufend p - begin_ptr p) + (end_ptr p - 0)) = Oc"
      using O_eq BS by simp
    with True buf c1 c2 l1 l2 show ?thesis
      by (simp add: copy_pipe_into_new_buf_def Oc_def)
  next
    case False
    then have BE: "B \<le> E" by (simp add: wraps_around_def word_less_nat_alt E_def B_def)
    then have be: "begin_ptr p \<le> end_ptr p" by (simp add: word_le_nat_alt E_def B_def)
    have un: "unat (end_ptr p - begin_ptr p) = E - B"
      using be by (simp add: unat_sub E_def B_def)
    have le: "E - B \<le> Oc"
    proof (cases "B < E")
      case True
      with cc(2) show ?thesis by simp
    next
      case False
      with BE show ?thesis by simp
    qed
    have "unat (begin_ptr p) + unat (end_ptr p - begin_ptr p) \<le> length buf"
      using un BE cc(1) len by (simp add: B_def)
    moreover have "unat (0 :: size_t) + unat (end_ptr p - begin_ptr p) \<le> length nb"
      using un le fits by (simp add: Oc_def)
    ultimately obtain blk where
      c: "offset_memcpy nb 0 (Some buf) (begin_ptr p) (end_ptr p - begin_ptr p) =
            Some (blk, 0 + (end_ptr p - begin_ptr p))"
      and l: "length blk = length nb"
      using offset_memcpy_Some by blast
    have "unat (0 + (end_ptr p - begin_ptr p)) = Oc"
      if nf: "elem_count p < capacity p \<or> elem_count p = 0"
    proof (cases "B < E")
      case True
      with cc(2) un show ?thesis by simp
    next
      case False
      with BE have "E = B" by simp
      from cc(4) [OF this] have "Oc = 0 \<or> Oc = S" .
      moreover have "Oc \<noteq> S \<or> Oc = 0"
      proof (cases "elem_count p = 0")
        case True
        then show ?thesis by (simp add: Oc_def)
      next
        case False
        with nf have "unat (elem_count p) < unat (capacity p)" by (simp add: word_less_nat_alt)
        with es have "Oc < S" by (simp add: Oc_def S_def)
        then show ?thesis by simp
      qed
      ultimately have "Oc = 0" by blast
      with \<open>E = B\<close> un show ?thesis by simp
    qed
    with False buf c l show ?thesis
      by (simp add: copy_pipe_into_new_buf_def Oc_def)
  qed
qed

lemma resize_buffer_mem_ok:
  assumes ok: "mem_ok p"
    and m: "m = (if n \<ge> max_cap p then max_cap p else n)"
    and nw: "unat m * unat (elem_size p) < 2 ^ 64"
  shows "\<exists>p'. resize_buffer p n = Some p' \<and>
           (elem_count p < capacity p \<or> elem_count p = 0 \<longrightarrow> mem_ok p')"
proof (cases "m \<le> elem_count p \<or> m < min_cap p")
  case True
  with ok m show ?thesis by (simp add: resize_buffer_def Let_def)
next
  case False
  then have gt: "elem_count p < m" by (simp add: not_le)
  then have ugt: "unat (elem_count p) < unat m" by (simp add: word_less_nat_alt)
  from ok obtain buf where es: "0 < unat (elem_size p)" by (rule mem_okD)
  have um: "unat (m * elem_size p) = unat m * unat (elem_size p)"
    using nw by (rule unat_mult_nw)
  have lt: "unat (elem_size p) * unat (elem_count p) < unat m * unat (elem_size p)"
    using ugt es by (simp add: mult.commute)
  have "unat (elem_size p) * unat (elem_count p) \<le> length (malloc (m * elem_size p))"
    using lt um by (simp add: malloc_def)
  from copy_pipe_into_new_buf_Some [OF ok this] obtain blk e where
    c: "copy_pipe_into_new_buf p (malloc (m * elem_size p)) = Some (blk, e)"
    and l: "length blk = length (malloc (m * elem_size p))"
    and ue: "elem_count p < capacity p \<or> elem_count p = 0 \<Longrightarrow>
              unat e = unat (elem_size p) * unat (elem_count p)"
    by blast
  define p' where "p' = fix_bufend (p\<lparr>end_ptr := e, buffer := Some blk, begin_ptr := 0,
                     capacity := m\<rparr>)"
  have r: "resize_buffer p n = Some p'"
    using False m c by (simp add: resize_buffer_def Let_def p'_def)
  have "mem_ok p'" if nf: "elem_count p < capacity p \<or> elem_count p = 0"
  proof -
    have ube: "unat (elem_size p * m) = unat (elem_size p) * unat m"
      using nw by (intro unat_mult_nw) (simp add: mult.commute)
    have pos: "0 < unat (elem_size p) * unat m" using es ugt by simp
    have "length blk = unat (elem_size p * m)"
      using l um ube by (simp add: malloc_def mult.commute)
    moreover have "elem_size p \<noteq> 0" using es by (simp add: unat_gt_0)
    moreover have "unat (elem_size p) * unat m < 2 ^ 64" using nw by (simp add: mult.commute)
    moreover have "elem_count p \<le> m" using gt by simp
    moreover have "(0 :: size_t) < elem_size p * m"
      using pos ube by (simp add: word_less_nat_alt)
    moreover have "unat e = (unat (0 :: size_t) + unat (elem_size p) * unat (elem_count p))
                      mod unat (elem_size p * m)"
      using ue [OF nf] lt ube by (simp add: mult.commute)
    ultimately show ?thesis
      by (simp add: mem_ok_def p'_def fix_bufend_def)
  qed
  with r show ?thesis by blast
qed

lemma wrap_if_at_end_unat:
  fixes q e :: size_t
  assumes "unat q \<le> unat e" and "0 < unat e"
  shows "unat (wrap_if_at_end q 0 e) = unat q mod unat e"
proof (cases "q = e")
  case True
  then show ?thesis by (simp add: wrap_if_at_end_def)
next
  case False
  then have "unat q \<noteq> unat e" by (simp add: word_unat_eq_iff)
  with assms have "unat q < unat e" by simp
  with False show ?thesis by (simp add: wrap_if_at_end_def)
qed

lemma pop_copy_mem_ok:
  assumes ok: "mem_ok p"
  shows "\<exists>p2 t. pop_copy p count = Some (p2, t, min count (elem_count p)) \<and>
           mem_ok p2 \<and> length t = unat (min count (elem_count p)) * unat (elem_size p)"
proof -
  define S where "S = unat (elem_size p) * unat (capacity p)"
  define B where "B = unat (begin_ptr p)"
  define E where "E = unat (end_ptr p)"
  define Oc where "Oc = unat (elem_size p) * unat (elem_count p)"
  from ok obtain buf where buf: "buffer p = Some buf" and len: "length buf = S"
    and ube: "unat (bufend p) = S" and S64: "S < 2 ^ 64" and es: "0 < unat (elem_size p)"
    and ec: "unat (elem_count p) \<le> unat (capacity p)" and BS: "B < S"
    and cur: "E = (B + Oc) mod S"
    unfolding S_def B_def E_def Oc_def by (rule mem_okD)
  from ok have be_eq: "bufend p = elem_size p * capacity p" and esnz: "elem_size p \<noteq> 0"
    by (auto simp: mem_ok_def split: option.splits)
  have OS: "Oc \<le> S" unfolding Oc_def S_def using ec by simp
  define r where "r = min count (elem_count p)"
  define tot where "tot = r * elem_size p"
  define first where "first = min tot (bufend p - begin_ptr p)"
  define rem where "rem = tot - first"
  define b1 where "b1 = wrap_if_at_end (begin_ptr p + first) 0 (bufend p)"
  define b2 where "b2 = (if rem > 0 then wrap_if_at_end (b1 + rem) 0 (bufend p) else b1)"
  define R where "R = unat r * unat (elem_size p)"
  define F where "F = min R (S - B)"
  have r_le: "unat r \<le> unat (elem_count p)" by (simp add: r_def unat_min)
  have RO: "R \<le> Oc" unfolding R_def Oc_def using r_le by (simp add: mult.commute)
  have utot: "unat tot = R" unfolding tot_def R_def
    using RO OS S64 by (intro unat_mult_nw) (simp add: R_def)
  have bb: "begin_ptr p \<le> bufend p" using BS ube by (simp add: word_le_nat_alt B_def)
  have usub: "unat (bufend p - begin_ptr p) = S - B"
    using bb ube by (simp add: unat_sub B_def)
  have ufirst: "unat first = F" by (simp add: first_def unat_min utot usub F_def)
  have first_le: "first \<le> tot" by (simp add: first_def)
  have urem: "unat rem = R - F" using first_le utot ufirst by (simp add: rem_def unat_sub)
  have FB: "B + F \<le> S" using BS by (simp add: F_def)
  have uadd1: "unat (begin_ptr p + first) = B + F"
    using FB S64 ufirst by (simp add: unat_add_nw B_def)
  have ub1: "unat b1 = (B + F) mod S"
    unfolding b1_def using wrap_if_at_end_unat [of "begin_ptr p + first" "bufend p"]
      uadd1 ube FB BS by simp
  have ub2: "unat b2 = (B + R) mod S"
  proof (cases "rem > 0")
    case True
    then have "0 < R - F" using urem by (simp add: word_less_nat_alt)
    then have Fe: "F = S - B" and RF: "F < R" by (simp_all add: F_def min_def split: if_splits)
    with BS have "(B + F) mod S = 0" by simp
    with ub1 have b10: "b1 = 0" by (simp add: unat_eq_zero [symmetric] del: unat_eq_zero)
    have lt: "R - F < S" using Fe RO OS BS by simp
    have "unat (b1 + rem) = R - F" using b10 urem by simp
    with lt ube have "unat (wrap_if_at_end (b1 + rem) 0 (bufend p)) = (R - F) mod S"
      using wrap_if_at_end_unat [of "b1 + rem" "bufend p"] by simp
    also have "\<dots> = R - F" using lt by simp
    also have "\<dots> = (B + R) mod S"
    proof -
      have "B + R = S + (R - F)" using Fe RF BS by simp
      with lt show ?thesis by simp
    qed
    finally show ?thesis using True by (simp add: b2_def)
  next
    case False
    then have "R - F = 0" using urem by (simp add: word_less_nat_alt not_less)
    then have "R \<le> F" by simp
    moreover have "F \<le> R" by (simp add: F_def)
    ultimately have "F = R" by simp
    with ub1 False show ?thesis by (simp add: b2_def)
  qed
  have "unat (begin_ptr p) + unat first \<le> length buf"
    using FB ufirst len by (simp add: B_def)
  from mem_read_Some [OF this] obtain t1 where
    r1: "mem_read (Some buf) (begin_ptr p) first = Some t1" and l1: "length t1 = F"
    using ufirst by auto
  have "unat (0 :: size_t) + unat rem \<le> length buf"
    using urem RO OS len by simp
  from mem_read_Some [OF this] obtain t2' where
    r2: "mem_read (Some buf) 0 rem = Some t2'" and l2: "length t2' = R - F"
    using urem by auto
  define t2 where "t2 = (if rem > 0 then t2' else [])"
  have lt2: "length t2 = R - F"
  proof (cases "rem > 0")
    case True
    with l2 show ?thesis by (simp add: t2_def)
  next
    case False
    then have "R - F = 0" using urem by (simp add: word_less_nat_alt not_less)
    with False show ?thesis by (simp add: t2_def)
  qed
  define p2 where "p2 = p\<lparr>elem_count := elem_count p - r, begin_ptr := b2\<rparr>"
  have r_le_w: "r \<le> elem_count p" by (simp add: r_def)
  have uec2: "unat (elem_count p - r) = unat (elem_count p) - unat r"
    using r_le_w by (simp add: unat_sub)
  have ok2: "mem_ok p2"
  proof -
    have "unat (elem_size p) * (unat (elem_count p) - unat r) = Oc - R"
      by (simp add: Oc_def R_def diff_mult_distrib2 mult.commute)
    moreover have "((B + R) mod S + (Oc - R)) mod S = (B + Oc) mod S"
    proof -
      have "((B + R) mod S + (Oc - R)) mod S = (B + R + (Oc - R)) mod S"
        by (rule mod_add_left_eq)
      moreover have "B + R + (Oc - R) = B + Oc" using RO by simp
      ultimately show ?thesis by simp
    qed
    ultimately have "unat (end_ptr p) =
        (unat b2 + unat (elem_size p) * unat (elem_count p - r)) mod unat (bufend p)"
      using cur ub2 uec2 ube by (simp add: E_def)
    moreover have "b2 < bufend p" using ub2 ube BS by (simp add: word_less_nat_alt)
    moreover have "elem_count p - r \<le> capacity p"
      using uec2 ec by (simp add: word_le_nat_alt)
    ultimately show ?thesis
      using buf len ube esnz S64 be_eq by (simp add: mem_ok_def p2_def S_def)
  qed
  have "pop_copy p count = Some (p2, t1 @ t2, r)"
  proof (cases "rem > 0")
    case True
    with r1 r2 buf show ?thesis
      unfolding pop_copy_def Let_def p2_def b2_def
      by (auto simp: r_def [symmetric] tot_def [symmetric] first_def [symmetric]
          rem_def [symmetric] b1_def [symmetric] t2_def split: if_splits)
  next
    case False
    with r1 buf show ?thesis
      unfolding pop_copy_def Let_def p2_def b2_def
      by (auto simp: r_def [symmetric] tot_def [symmetric] first_def [symmetric]
          rem_def [symmetric] b1_def [symmetric] t2_def split: if_splits)
  qed
  moreover have "length (t1 @ t2) = unat r * unat (elem_size p)"
    using l1 lt2 by (simp add: R_def F_def)
  ultimately show ?thesis using ok2 by (auto simp: r_def)
qed

lemma pop_without_locking_mem_ok:
  assumes ok: "mem_ok p"
  shows "\<exists>p' t. pop_without_locking p count = Some (p', t, min count (elem_count p)) \<and>
           mem_ok p' \<and> length t = unat (min count (elem_count p)) * unat (elem_size p)"
proof -
  from pop_copy_mem_ok [OF ok, of count] obtain p2 t where
    pc: "pop_copy p count = Some (p2, t, min count (elem_count p))" and ok2: "mem_ok p2"
    and lt: "length t = unat (min count (elem_count p)) * unat (elem_size p)" by blast
  from pop_copy_SomeD(1) [OF pc] obtain bg where
    p2: "p2 = p\<lparr>elem_count := elem_count p - min count (elem_count p), begin_ptr := bg\<rparr>"
    by blast
  from ok obtain buf where S64: "unat (elem_size p) * unat (capacity p) < 2 ^ 64"
    by (rule mem_okD)
  have "\<exists>p'. (if elem_count p2 \<le> capacity p2 div 4
              then resize_buffer p2 (capacity p2 div 2) else Some p2) = Some p' \<and> mem_ok p'"
  proof (cases "elem_count p2 \<le> capacity p2 div 4")
    case False
    with ok2 show ?thesis by simp
  next
    case True
    define m where "m = (if capacity p2 div 2 \<ge> max_cap p2 then max_cap p2 else capacity p2 div 2)"
    have "m \<le> capacity p2 div 2" by (auto simp: m_def)
    then have "unat m \<le> unat (capacity p) div 2" by (simp add: word_le_nat_alt unat_div p2)
    then have "unat m \<le> unat (capacity p)" by simp
    then have "unat m * unat (elem_size p2) \<le> unat (elem_size p) * unat (capacity p)"
      by (simp add: p2 mult.commute)
    with S64 have nw: "unat m * unat (elem_size p2) < 2 ^ 64" by simp
    from True have q: "unat (elem_count p2) \<le> unat (capacity p2) div 4"
      by (simp add: word_le_nat_alt unat_div)
    have nf: "elem_count p2 < capacity p2 \<or> elem_count p2 = 0"
    proof (cases "elem_count p2 = 0")
      case True
      then show ?thesis by simp
    next
      case False
      then have "0 < unat (elem_count p2)" by (simp add: unat_gt_0)
      with q have "unat (elem_count p2) < unat (capacity p2)" by simp
      then show ?thesis by (simp add: word_less_nat_alt)
    qed
    from resize_buffer_mem_ok [OF ok2 m_def nw] nf True
    show ?thesis by auto
  qed
  then obtain p' where
    p': "(if elem_count p2 \<le> capacity p2 div 4
          then resize_buffer p2 (capacity p2 div 2) else Some p2) = Some p'"
    and ok': "mem_ok p'" by blast
  have "pop_without_locking p count = Some (p', t, min count (elem_count p))"
    using pc p' by (simp add: pop_without_locking_pop_copy)
  with ok' lt show ?thesis by blast
qed


text \<open>The copy of \<open>push_without_locking\<close>, on the pipe \<open>q\<close> that the resize left.\<close>

lemma push_copy_mem_ok:
  assumes ok: "mem_ok q"
    and room: "unat (elem_count q) + unat k \<le> unat (capacity q)"
    and src: "unat k * unat (elem_size q) \<le> length elems"
    and buf: "buffer q = Some buf"
  shows "\<exists>p'.
     (((if \<not> wraps_around q then
          do {
            let at_end = min (k * elem_size q) (bufend q - end_ptr q);
            (buf, a) \<leftarrow> offset_memcpy buf (end_ptr q) (Some elems) 0 at_end;
            Some (buf, wrap_if_at_end a 0 (bufend q),
                  drop (unat at_end) elems, k * elem_size q - at_end)
          }
        else Some (buf, end_ptr q, elems, k * elem_size q)) \<bind>
       (\<lambda>(buf, e, elems, bytes_to_copy).
          offset_memcpy buf e (Some elems) 0 bytes_to_copy \<bind>
          (\<lambda>(buf, a).
             Some (q\<lparr>buffer := Some buf,
                      end_ptr := wrap_if_at_end a 0 (bufend q),
                      elem_count := elem_count q + k\<rparr>)))) = Some p') \<and>
     mem_ok p'"
proof -
  define S where "S = unat (elem_size q) * unat (capacity q)"
  define B where "B = unat (begin_ptr q)"
  define E where "E = unat (end_ptr q)"
  define Oc where "Oc = unat (elem_size q) * unat (elem_count q)"
  define K where "K = unat k * unat (elem_size q)"
  from ok buf have len: "length buf = S"
    and ube: "unat (bufend q) = S" and S64: "S < 2 ^ 64" and es: "0 < unat (elem_size q)"
    and ec: "unat (elem_count q) \<le> unat (capacity q)" and BS: "B < S"
    and cur: "E = (B + Oc) mod S"
    unfolding S_def B_def E_def Oc_def by (auto elim!: mem_okD)
  from ok have be_eq: "bufend q = elem_size q * capacity q" and esnz: "elem_size q \<noteq> 0"
    by (auto simp: mem_ok_def split: option.splits)
  have OS: "Oc \<le> S" unfolding Oc_def S_def using ec by simp
  have OK_S: "Oc + K \<le> S"
  proof -
    have "Oc + K = unat (elem_size q) * (unat (elem_count q) + unat k)"
      by (simp add: Oc_def K_def distrib_left mult.commute)
    also have "\<dots> \<le> S" unfolding S_def using room by simp
    finally show ?thesis .
  qed
  note cc = cursor_cases [OF cur BS OS]
  have uk: "unat (k * elem_size q) = K"
    unfolding K_def using OK_S S64 by (intro unat_mult_nw) (simp add: K_def)
  have uec: "unat (elem_count q + k) = unat (elem_count q) + unat k"
  proof (rule unat_add_nw)
    have "unat (elem_count q) + unat k \<le> unat (capacity q)" by (rule room)
    also have "\<dots> < 2 ^ 64" by (rule unat_size_t_less)
    finally show "unat (elem_count q) + unat k < 2 ^ 64" .
  qed
  have ee: "end_ptr q \<le> bufend q" using cc(1) ube by (simp add: word_le_nat_alt E_def)
  have usub: "unat (bufend q - end_ptr q) = S - E"
    using ee ube by (simp add: unat_sub E_def)
  have final: "mem_ok (q\<lparr>buffer := Some blk, end_ptr := wrap_if_at_end a 0 (bufend q),
                  elem_count := elem_count q + k\<rparr>)"
    if l: "length blk = S" and a: "unat a \<le> S" "unat a mod S = (E + K) mod S" for blk a
  proof -
    have "unat (wrap_if_at_end a 0 (bufend q)) = unat a mod S"
      using wrap_if_at_end_unat [of a "bufend q"] a(1) ube BS by simp
    also have "\<dots> = (E + K) mod S" by (rule a(2))
    also have "\<dots> = ((B + Oc) mod S + K) mod S" by (simp add: cur)
    also have "\<dots> = (B + Oc + K) mod S" by (rule mod_add_left_eq)
    also have "B + Oc + K = B + unat (elem_size q) * unat (elem_count q + k)"
      by (simp add: uec Oc_def K_def distrib_left mult.commute)
    finally have "unat (wrap_if_at_end a 0 (bufend q)) =
        (unat (begin_ptr q) + unat (elem_size q) * unat (elem_count q + k)) mod unat (bufend q)"
      by (simp add: B_def ube)
    moreover have "elem_count q + k \<le> capacity q"
      using uec room by (simp add: word_le_nat_alt)
    moreover have "begin_ptr q < bufend q" using BS ube by (simp add: word_less_nat_alt B_def)
    ultimately show ?thesis
      using l ube esnz S64 be_eq by (simp add: mem_ok_def S_def)
  qed
  show ?thesis
  proof (cases "wraps_around q")
    case True
    then have EB: "E < B" by (simp add: wraps_around_def word_less_nat_alt E_def B_def)
    from cc(3) [OF EB] have "Oc = E + S - B" .
    with OK_S BS have EK: "E + K \<le> S" by simp
    have "unat (0 :: size_t) + unat (k * elem_size q) \<le> length elems"
      using uk src by (simp add: K_def)
    moreover have "unat (end_ptr q) + unat (k * elem_size q) \<le> length buf"
      using uk EK len by (simp add: E_def)
    ultimately obtain blk where
      c: "offset_memcpy buf (end_ptr q) (Some elems) 0 (k * elem_size q) =
            Some (blk, end_ptr q + k * elem_size q)"
      and l: "length blk = length buf"
      using offset_memcpy_Some by blast
    have ua: "unat (end_ptr q + k * elem_size q) = E + K"
      using EK S64 uk by (simp add: unat_add_nw E_def)
    from final [of blk "end_ptr q + k * elem_size q"] l len ua EK
    have "mem_ok (q\<lparr>buffer := Some blk,
                   end_ptr := wrap_if_at_end (end_ptr q + k * elem_size q) 0 (bufend q),
                   elem_count := elem_count q + k\<rparr>)" by simp
    with True c show ?thesis by simp
  next
    case False
    define at_end where "at_end = min (k * elem_size q) (bufend q - end_ptr q)"
    define A where "A = min K (S - E)"
    have uat: "unat at_end = A" by (simp add: at_end_def unat_min uk usub A_def)
    have AK: "A \<le> K" and EA: "E + A \<le> S" using cc(1) by (simp_all add: A_def)
    have "unat (0 :: size_t) + unat at_end \<le> length elems"
      using uat AK src by (simp add: K_def)
    moreover have "unat (end_ptr q) + unat at_end \<le> length buf"
      using uat EA len by (simp add: E_def)
    ultimately obtain blk1 where
      c1: "offset_memcpy buf (end_ptr q) (Some elems) 0 at_end = Some (blk1, end_ptr q + at_end)"
      and l1: "length blk1 = length buf"
      using offset_memcpy_Some by blast
    define e1 where "e1 = wrap_if_at_end (end_ptr q + at_end) 0 (bufend q)"
    define rem where "rem = k * elem_size q - at_end"
    have ua1: "unat (end_ptr q + at_end) = E + A"
      using EA S64 uat by (simp add: unat_add_nw E_def)
    have ue1: "unat e1 = (E + A) mod S"
      unfolding e1_def using wrap_if_at_end_unat [of "end_ptr q + at_end" "bufend q"]
        ua1 ube EA BS by simp
    have at_le: "at_end \<le> k * elem_size q" by (simp add: at_end_def)
    have urem: "unat rem = K - A" using at_le uk uat by (simp add: rem_def unat_sub)
    have dest2: "unat e1 + (K - A) \<le> S" and fin2: "(unat e1 + (K - A)) mod S = (E + K) mod S"
    proof -
      show "unat e1 + (K - A) \<le> S"
      proof (cases "A < K")
        case True
        then have "A = S - E" by (simp add: A_def min_def split: if_splits)
        with cc(1) ue1 have "unat e1 = 0" by simp
        moreover have "K \<le> S" using OK_S by simp
        ultimately show ?thesis by simp
      next
        case False
        with AK have "K - A = 0" by simp
        moreover have "unat e1 < S" using ue1 BS by simp
        ultimately show ?thesis by simp
      qed
      have "(unat e1 + (K - A)) mod S = ((E + A) mod S + (K - A)) mod S" by (simp add: ue1)
      also have "\<dots> = (E + A + (K - A)) mod S" by (rule mod_add_left_eq)
      also have "E + A + (K - A) = E + K" using AK by simp
      finally show "(unat e1 + (K - A)) mod S = (E + K) mod S" .
    qed
    have "unat (0 :: size_t) + unat rem \<le> length (drop (unat at_end) elems)"
      using urem uat src AK by (simp add: K_def)
    moreover have "unat e1 + unat rem \<le> length blk1"
      using urem dest2 l1 len by simp
    ultimately obtain blk2 where
      c2: "offset_memcpy blk1 e1 (Some (drop (unat at_end) elems)) 0 rem = Some (blk2, e1 + rem)"
      and l2: "length blk2 = length blk1"
      using offset_memcpy_Some by blast
    have ua2: "unat (e1 + rem) = unat e1 + (K - A)"
      using dest2 S64 urem by (simp add: unat_add_nw)
    from final [of blk2 "e1 + rem"] l2 l1 len ua2 dest2 fin2
    have "mem_ok (q\<lparr>buffer := Some blk2,
                   end_ptr := wrap_if_at_end (e1 + rem) 0 (bufend q),
                   elem_count := elem_count q + k\<rparr>)" by simp
    with False c1 c2 show ?thesis
      by (simp add: Let_def at_end_def [symmetric] e1_def [symmetric] rem_def [symmetric])
  qed
qed

lemma push_without_locking_mem_ok:
  assumes ok: "mem_ok p" and inv: "cap_inv p"
    and k: "k \<le> max_cap p - elem_count p"
    and src: "unat k * unat (elem_size p) \<le> length elems"
    and grow: "elem_count p + k > capacity p \<Longrightarrow>
        (elem_count p < capacity p \<or> elem_count p = 0) \<and>
        unat (if next_pow2 (elem_count p + k) \<ge> max_cap p then max_cap p
              else next_pow2 (elem_count p + k)) * unat (elem_size p) < 2 ^ 64"
  shows "\<exists>p'. push_without_locking p elems k = Some p' \<and> mem_ok p'"
proof -
  from inv have i: "min_cap p \<le> capacity p" "capacity p \<le> max_cap p"
    "elem_count p \<le> capacity p" by (simp_all add: cap_inv_def)
  then have ecmc: "elem_count p \<le> max_cap p" by simp
  note nw = add_chunk_no_wrap [OF ecmc k]
  have "\<exists>q. (if elem_count p + k > capacity p
              then resize_buffer p (next_pow2 (elem_count p + k)) else Some p) = Some q \<and>
             mem_ok q \<and> elem_count q = elem_count p \<and> elem_size q = elem_size p \<and>
             unat (elem_count p) + unat k \<le> unat (capacity q)"
  proof (cases "elem_count p + k > capacity p")
    case False
    then have "elem_count p + k \<le> capacity p" by (simp add: not_less)
    then have "unat (elem_count p) + unat k \<le> unat (capacity p)"
      using nw(1) by (simp add: word_le_nat_alt)
    with False ok show ?thesis by simp
  next
    case True
    define m where "m = (if next_pow2 (elem_count p + k) \<ge> max_cap p then max_cap p
                         else next_pow2 (elem_count p + k))"
    from grow [OF True] have nf: "elem_count p < capacity p \<or> elem_count p = 0"
      and mnw: "unat m * unat (elem_size p) < 2 ^ 64" by (simp_all add: m_def)
    from resize_buffer_mem_ok [OF ok m_def mnw] nf obtain q where
      q: "resize_buffer p (next_pow2 (elem_count p + k)) = Some q" and okq: "mem_ok q"
      by blast
    have m_ge: "elem_count p + k \<le> m"
      using nw(2) next_pow2_ge [of "elem_count p + k"] by (simp add: m_def)
    from m_ge True i have notm: "\<not> (m \<le> elem_count p \<or> m < min_cap p)" by auto
    from resize_buffer_capacity [OF q]
    have "capacity q = (if m \<le> elem_count p \<or> m < min_cap p then capacity p else m)"
      by (simp add: Let_def m_def)
    with notm have "capacity q = m" by simp
    with m_ge nw(1) have "unat (elem_count p) + unat k \<le> unat (capacity q)"
      by (simp add: word_le_nat_alt)
    with True q okq resize_buffer_fields(1,2) [OF q] show ?thesis by simp
  qed
  then obtain q where
    q: "(if elem_count p + k > capacity p
          then resize_buffer p (next_pow2 (elem_count p + k)) else Some p) = Some q"
    and okq: "mem_ok q" and ecq: "elem_count q = elem_count p"
    and esq: "elem_size q = elem_size p"
    and room: "unat (elem_count p) + unat k \<le> unat (capacity q)" by blast
  from okq obtain buf where buf: "buffer q = Some buf" by (rule mem_okD)
  have room': "unat (elem_count q) + unat k \<le> unat (capacity q)" using room ecq by simp
  have src': "unat k * unat (elem_size q) \<le> length elems" using src esq by simp
  from push_copy_mem_ok [OF okq room' src' buf] obtain p' where
    c: "(((if \<not> wraps_around q then
          do {
            let at_end = min (k * elem_size q) (bufend q - end_ptr q);
            (buf, a) \<leftarrow> offset_memcpy buf (end_ptr q) (Some elems) 0 at_end;
            Some (buf, wrap_if_at_end a 0 (bufend q),
                  drop (unat at_end) elems, k * elem_size q - at_end)
          }
        else Some (buf, end_ptr q, elems, k * elem_size q)) \<bind>
       (\<lambda>(buf, e, elems, bytes_to_copy).
          offset_memcpy buf e (Some elems) 0 bytes_to_copy \<bind>
          (\<lambda>(buf, a).
             Some (q\<lparr>buffer := Some buf,
                      end_ptr := wrap_if_at_end a 0 (bufend q),
                      elem_count := elem_count q + k\<rparr>)))) = Some p')"
    and okp: "mem_ok p'" by blast
  have "push_without_locking p elems k = Some p'"
    unfolding push_without_locking_def Let_def q
    using c buf by (cases "wraps_around q") (simp_all add: esq Let_def)
  with okp show ?thesis by blast
qed

lemma pipe_new_mem_ok:
  assumes "es \<noteq> 0" and "unat es * unat (DEFAULT_MINCAP b) < 2 ^ 64"
  shows "mem_ok (pipe_new b es limit)"
proof -
  have u: "unat (es * DEFAULT_MINCAP b) = unat es * unat (DEFAULT_MINCAP b)"
    using assms(2) by (rule unat_mult_nw)
  have "0 < unat (DEFAULT_MINCAP b)" by (cases b) simp_all
  moreover have "0 < unat es" using assms(1) by (simp add: unat_gt_0)
  ultimately have "0 < unat (es * DEFAULT_MINCAP b)" using u by simp
  then have "0 < es * DEFAULT_MINCAP b" by (simp add: word_less_nat_alt)
  with assms u show ?thesis
    by (simp add: mem_ok_def pipe_new_def fix_bufend_def malloc_def)
qed

lemma three_bytes_pushed:
  "push_locked (pipe_new RELEASE 1 0) [1, 2, 3] 3 = Pushed three_bytes 3"
  by code_simp



section \<open>Lemmas: the assertions on a pipe in a consistent state\<close>

text \<open>
  A pipe is in a consistent state when its memory is in order and \<open>check_invariants\<close>
  holds. From such a state a resize, a pop and a push stay inside their blocks; the
  resize and the pop pass every assertion and leave a consistent state, and the push
  does so unless it fills the buffer exactly.
\<close>

lemma resize_buffer_consistent:
  assumes ok: "mem_ok p" and chk: "check_invariants b p"
    and m: "m = (if n \<ge> max_cap p then max_cap p else n)"
    and nw: "unat m * unat (elem_size p) < 2 ^ 64"
  shows "resize_buffer_asserts b p n \<and>
         (\<exists>p'. resize_buffer p n = Some p' \<and> mem_ok p' \<and> check_invariants b p')"
proof -
  from chk ok have bnd: "DEFAULT_MINCAP b \<le> min_cap p" "min_cap p \<le> max_cap p"
    "min_cap p \<le> capacity p" "capacity p \<le> max_cap p" and nf: "elem_count p < capacity p"
    by (simp_all add: mem_ok_check_invariants)
  from resize_buffer_mem_ok [OF ok m nw] nf obtain p' where
    r: "resize_buffer p n = Some p'" and ok': "mem_ok p'" by blast
  note f = resize_buffer_fields [OF r]
  have cap: "capacity p' = (if m \<le> elem_count p \<or> m < min_cap p then capacity p else m)"
    using resize_buffer_capacity [OF r] m by (simp add: Let_def)
  have mle: "m \<le> max_cap p" by (auto simp: m)
  have chk': "check_invariants b p'"
  proof (cases "m \<le> elem_count p \<or> m < min_cap p")
    case True
    with cap f bnd nf ok' show ?thesis by (simp add: mem_ok_check_invariants)
  next
    case False
    then have "elem_count p < m" "min_cap p \<le> m" by (simp_all add: not_le not_less)
    with False cap f bnd mle ok' show ?thesis by (simp add: mem_ok_check_invariants)
  qed
  have "m * elem_size p \<ge> elem_size p * elem_count p" if "\<not> (m \<le> elem_count p \<or> m < min_cap p)"
  proof -
    from that have "unat (elem_count p) < unat m" by (simp add: not_le word_less_nat_alt)
    then have le: "unat (elem_size p) * unat (elem_count p) \<le> unat m * unat (elem_size p)"
      by (simp add: mult.commute)
    from le nw have "unat (elem_size p) * unat (elem_count p) < 2 ^ 64"
      by (rule le_less_trans)
    then have "unat (elem_size p * elem_count p) = unat (elem_size p) * unat (elem_count p)"
      by (rule unat_mult_nw)
    moreover have "unat (m * elem_size p) = unat m * unat (elem_size p)"
      using nw by (rule unat_mult_nw)
    ultimately show ?thesis using le by (simp add: word_le_nat_alt)
  qed
  then have "resize_buffer_asserts b p n"
    using chk chk' r m by (simp add: resize_buffer_asserts_def Let_def)
  with r ok' chk' show ?thesis by blast
qed

lemma pop_without_locking_consistent:
  assumes ok: "mem_ok p" and chk: "check_invariants b p"
  shows "pop_without_locking_asserts b p count \<and>
         (\<exists>p' t. pop_without_locking p count = Some (p', t, min count (elem_count p)) \<and>
            mem_ok p' \<and> check_invariants b p' \<and>
            length t = unat (min count (elem_count p)) * unat (elem_size p))"
proof -
  define r where "r = min count (elem_count p)"
  from chk ok have bnd: "DEFAULT_MINCAP b \<le> min_cap p" "min_cap p \<le> max_cap p"
    "min_cap p \<le> capacity p" "capacity p \<le> max_cap p" and nf: "elem_count p < capacity p"
    by (simp_all add: mem_ok_check_invariants)
  from pop_copy_mem_ok [OF ok, of count] obtain p2 t where
    pc: "pop_copy p count = Some (p2, t, r)" and ok2: "mem_ok p2"
    and lt: "length t = unat r * unat (elem_size p)" by (auto simp: r_def)
  from pop_copy_SomeD(1) [OF pc] obtain bg where
    p2: "p2 = p\<lparr>elem_count := elem_count p - min count (elem_count p), begin_ptr := bg\<rparr>"
    by blast
  have "r \<le> elem_count p" by (simp add: r_def)
  then have "elem_count p - r \<le> elem_count p" by (simp add: word_le_nat_alt unat_sub)
  with nf have nf2: "elem_count p2 < capacity p2" by (simp add: p2 r_def)
  have chk2: "check_invariants b p2"
    using ok2 bnd nf2 by (simp add: mem_ok_check_invariants) (simp add: p2)
  from ok obtain buf where S64: "unat (elem_size p) * unat (capacity p) < 2 ^ 64"
    and ec: "unat (elem_count p) \<le> unat (capacity p)" by (rule mem_okD)
  have shrink: "(if elem_count p2 \<le> capacity p2 div 4
                 then resize_buffer_asserts b p2 (capacity p2 div 2) else True) \<and>
     (\<exists>p'. (if elem_count p2 \<le> capacity p2 div 4
              then resize_buffer p2 (capacity p2 div 2) else Some p2) = Some p' \<and>
            mem_ok p' \<and> check_invariants b p')"
  proof (cases "elem_count p2 \<le> capacity p2 div 4")
    case False
    with ok2 chk2 show ?thesis by simp
  next
    case True
    define m where "m = (if capacity p2 div 2 \<ge> max_cap p2 then max_cap p2 else capacity p2 div 2)"
    have "m \<le> capacity p2 div 2" by (auto simp: m_def)
    then have "unat m \<le> unat (capacity p) div 2" by (simp add: word_le_nat_alt unat_div p2)
    then have "unat m \<le> unat (capacity p)" by simp
    then have "unat m * unat (elem_size p2) \<le> unat (elem_size p) * unat (capacity p)"
      by (simp add: p2 mult.commute)
    with S64 have nw: "unat m * unat (elem_size p2) < 2 ^ 64" by simp
    from resize_buffer_consistent [OF ok2 chk2 m_def nw] True show ?thesis by simp
  qed
  then obtain p' where
    p': "(if elem_count p2 \<le> capacity p2 div 4
          then resize_buffer p2 (capacity p2 div 2) else Some p2) = Some p'"
    and ok': "mem_ok p'" and chk': "check_invariants b p'" by blast
  have pw: "pop_without_locking p count = Some (p', t, r)"
    using pc p' by (simp add: pop_without_locking_pop_copy)
  have a563: "min count (elem_count p) * elem_size p \<le> elem_count p * elem_size p"
  proof -
    have le: "unat r * unat (elem_size p) \<le> unat (elem_count p) * unat (elem_size p)"
      using \<open>r \<le> elem_count p\<close> by (simp add: word_le_nat_alt)
    have "unat (elem_count p) * unat (elem_size p) \<le> unat (elem_size p) * unat (capacity p)"
      using ec by (simp add: mult.commute)
    from this S64 have b1: "unat (elem_count p) * unat (elem_size p) < 2 ^ 64"
      by (rule le_less_trans)
    from le b1 have b2: "unat r * unat (elem_size p) < 2 ^ 64" by (rule le_less_trans)
    from b1 have "unat (elem_count p * elem_size p) = unat (elem_count p) * unat (elem_size p)"
      by (rule unat_mult_nw)
    moreover from b2 have "unat (r * elem_size p) = unat r * unat (elem_size p)"
      by (rule unat_mult_nw)
    ultimately show ?thesis using le by (simp add: word_le_nat_alt r_def)
  qed
  have "pop_without_locking_asserts b p count"
    using chk a563 pc chk2 shrink by (simp add: pop_without_locking_asserts_def)
  with pw ok' chk' lt show ?thesis by (auto simp: r_def)
qed

lemma pipe_pop_consistent:
  assumes ok: "mem_ok p" and chk: "check_invariants b p"
    and nowait: "\<not> (elem_count p < min count (max_cap p) \<and> producer_refcount p \<noteq> 0)"
  shows "pipe_pop_asserts b p count \<and>
         (\<exists>p' t. pipe_pop p count =
                   Pop_returned p' t (min (min count (max_cap p)) (elem_count p)) \<and>
            mem_ok p' \<and> check_invariants b p' \<and>
            length t = unat (min (min count (max_cap p)) (elem_count p)) * unat (elem_size p))"
proof -
  define n where "n = (if count > max_cap p then max_cap p else count)"
  have n: "n = min count (max_cap p)" by (auto simp: n_def min_def)
  from nowait have nw: "\<not> (elem_count p < n \<and> producer_refcount p > 0)"
    by (simp add: n word_greater_zero_iff)
  show ?thesis
  proof (cases "elem_count p = 0")
    case True
    with nw have "pipe_pop p count = Pop_returned p [] 0"
      by (simp add: pipe_pop_def n_def Let_def)
    moreover from True nw chk have "pipe_pop_asserts b p count"
      by (simp add: pipe_pop_asserts_def n_def Let_def)
    ultimately show ?thesis using True ok chk by (simp add: n [symmetric])
  next
    case False
    then have pos: "elem_count p > 0" by (simp add: word_greater_zero_iff)
    from pop_without_locking_consistent [OF ok chk, of n] obtain p' t where
      a: "pop_without_locking_asserts b p n"
      and pw: "pop_without_locking p n = Some (p', t, min n (elem_count p))"
      and ok': "mem_ok p'" and chk': "check_invariants b p'"
      and lt: "length t = unat (min n (elem_count p)) * unat (elem_size p)" by blast
    from pos nw pw have "pipe_pop p count = Pop_returned p' t (min n (elem_count p))"
      by (simp add: pipe_pop_def n_def Let_def)
    moreover from pos nw pw a chk chk' have "pipe_pop_asserts b p count"
      by (simp add: pipe_pop_asserts_def n_def Let_def)
    ultimately show ?thesis using ok' chk' lt by (simp add: n [symmetric])
  qed
qed


lemma push_without_locking_consistent:
  assumes ok: "mem_ok p" and chk: "check_invariants b p"
    and k: "k \<le> max_cap p - elem_count p"
    and src: "unat k * unat (elem_size p) \<le> length elems"
    and grow: "elem_count p + k > capacity p \<Longrightarrow>
        unat (if next_pow2 (elem_count p + k) \<ge> max_cap p then max_cap p
              else next_pow2 (elem_count p + k)) * unat (elem_size p) < 2 ^ 64"
  shows "\<exists>p'. push_without_locking p elems k = Some p' \<and> mem_ok p' \<and>
           (push_without_locking_asserts b p elems k \<longleftrightarrow> elem_count p' < capacity p') \<and>
           (check_invariants b p' \<longleftrightarrow> elem_count p' < capacity p')"
proof -
  from chk ok have bnd: "DEFAULT_MINCAP b \<le> min_cap p" "min_cap p \<le> max_cap p"
    "min_cap p \<le> capacity p" "capacity p \<le> max_cap p" and nf: "elem_count p < capacity p"
    by (simp_all add: mem_ok_check_invariants)
  from bnd nf have inv: "cap_inv p" by (simp add: cap_inv_def)
  have grow': "elem_count p + k > capacity p \<Longrightarrow>
        (elem_count p < capacity p \<or> elem_count p = 0) \<and>
        unat (if next_pow2 (elem_count p + k) \<ge> max_cap p then max_cap p
              else next_pow2 (elem_count p + k)) * unat (elem_size p) < 2 ^ 64"
    using grow nf by simp
  from push_without_locking_mem_ok [OF ok inv k src grow'] obtain p' where
    pw: "push_without_locking p elems k = Some p'" and ok': "mem_ok p'" by blast
  note f = push_without_locking_fields [OF pw]
  have rs: "resize_buffer_asserts b p (next_pow2 (elem_count p + k)) \<and>
            min_cap p \<le> capacity p' \<and> capacity p' \<le> max_cap p"
    if g: "elem_count p + k > capacity p"
  proof -
    define m where "m = (if next_pow2 (elem_count p + k) \<ge> max_cap p then max_cap p
                         else next_pow2 (elem_count p + k))"
    from grow [OF g] have mnw: "unat m * unat (elem_size p) < 2 ^ 64" by (simp add: m_def)
    from resize_buffer_consistent [OF ok chk m_def mnw] obtain q where
      a: "resize_buffer_asserts b p (next_pow2 (elem_count p + k))"
      and q: "resize_buffer p (next_pow2 (elem_count p + k)) = Some q"
      and okq: "mem_ok q" and chkq: "check_invariants b q" by blast
    from push_without_locking_capacity [OF pw] g q have "capacity p' = capacity q" by simp
    moreover from chkq okq have "min_cap q \<le> capacity q" "capacity q \<le> max_cap q"
      by (simp_all add: mem_ok_check_invariants)
    ultimately show ?thesis using a resize_buffer_fields(3,4) [OF q] by simp
  qed
  have capb: "min_cap p \<le> capacity p' \<and> capacity p' \<le> max_cap p"
  proof (cases "elem_count p + k > capacity p")
    case True
    with rs show ?thesis by simp
  next
    case False
    with push_without_locking_capacity [OF pw] bnd show ?thesis by simp
  qed
  have c': "check_invariants b p' \<longleftrightarrow> elem_count p' < capacity p'"
    using ok' bnd capb f by (simp add: mem_ok_check_invariants)
  have nz: "elem_count p + k \<noteq> 0" if "elem_count p + k > capacity p"
  proof
    assume "elem_count p + k = 0"
    with that have "capacity p < 0" by simp
    then show False by simp
  qed
  have "push_without_locking_asserts b p elems k \<longleftrightarrow> check_invariants b p'"
    using chk pw rs nz by (auto simp: push_without_locking_asserts_def)
  with pw ok' c' show ?thesis by blast
qed

lemma pipe_new_check_invariants:
  assumes "es \<noteq> 0" and "unat es * unat (DEFAULT_MINCAP b) < 2 ^ 64"
  shows "check_invariants b (pipe_new b es limit)"
proof -
  have ok: "mem_ok (pipe_new b es limit)" using assms by (rule pipe_new_mem_ok)
  have "(0 :: size_t) < DEFAULT_MINCAP b" by (cases b) simp_all
  moreover have "DEFAULT_MINCAP b \<le> max_cap (pipe_new b es limit)"
    using floor_le_next_pow2 [of b limit] floor_le_top [of b]
    by (simp add: pipe_new_def fix_bufend_def)
  ultimately show ?thesis
    using ok by (simp add: mem_ok_check_invariants) (simp add: pipe_new_def fix_bufend_def)
qed

section \<open>Lemmas: draining a pipe one element at a time\<close>

lemma pop_without_locking_capacity_eq:
  assumes "pop_without_locking p count = Some (p', t, r)"
  shows "capacity p' =
     (if elem_count p' \<le> capacity p div 4
      then (let m = (if capacity p div 2 \<ge> max_cap p then max_cap p else capacity p div 2)
            in if m \<le> elem_count p' \<or> m < min_cap p then capacity p else m)
      else capacity p)"
proof -
  note f = pop_without_locking_fields(2) [OF assms]
  from assms obtain b where b:
    "(if elem_count p - min count (elem_count p) \<le> capacity p div 4
      then resize_buffer (p\<lparr>elem_count := elem_count p - min count (elem_count p), begin_ptr := b\<rparr>)
             (capacity p div 2)
      else Some (p\<lparr>elem_count := elem_count p - min count (elem_count p), begin_ptr := b\<rparr>)) = Some p'"
    by (rule pop_without_locking_SomeD)
  show ?thesis
  proof (cases "elem_count p - min count (elem_count p) \<le> capacity p div 4")
    case True
    with b have r: "resize_buffer (p\<lparr>elem_count := elem_count p - min count (elem_count p), begin_ptr := b\<rparr>)
             (capacity p div 2) = Some p'" by simp
    from resize_buffer_capacity [OF r] True f show ?thesis by (simp add: Let_def)
  next
    case False
    with b f show ?thesis by auto
  qed
qed



lemma floor_exp: "\<exists>f. 1 \<le> f \<and> f < 64 \<and> unat (DEFAULT_MINCAP b) = 2 ^ f"
proof (cases b)
  case DEBUG
  then show ?thesis by (intro exI [of _ 1]) simp
next
  case RELEASE
  then show ?thesis by (intro exI [of _ 5]) simp
qed

lemma floor_half_less: "DEFAULT_MINCAP b div 2 < DEFAULT_MINCAP b"
  by (cases b) simp_all

lemma pow2_above_floor:
  assumes "is_pow2 c" and "DEFAULT_MINCAP b \<le> c" and "c \<noteq> DEFAULT_MINCAP b"
  shows "unat (DEFAULT_MINCAP b) \<le> unat c div 2"
    and "unat c div 4 < unat c div 2"
    and "unat c div 2 div 4 < unat c div 4"
    and "0 < unat c div 4"
proof -
  from assms(1) obtain a where a: "a < 64" "c = 2 ^ a" by (auto simp: is_pow2_def)
  from floor_exp [of b] obtain f where f: "1 \<le> f" "unat (DEFAULT_MINCAP b) = 2 ^ f" by blast
  have uc: "unat c = 2 ^ a" using a by (simp add: unat_pow2)
  from assms(2,3) have "unat (DEFAULT_MINCAP b) < unat c"
    by (simp add: word_le_nat_alt word_unat_eq_iff)
  with f uc have "(2 :: nat) ^ f < 2 ^ a" by simp
  then have fa: "f < a" by (rule power_less_imp_less_exp [rotated]) simp
  then obtain a' where a': "a = Suc a'" "f \<le> a'" by (cases a) auto
  with f obtain a'' where a'': "a' = Suc a''" by (cases a') auto
  have c2: "unat c div 2 = 2 ^ a'" using uc a' by simp
  have c4: "unat c div 4 = 2 ^ a''" using uc a' a'' by simp
  show "unat (DEFAULT_MINCAP b) \<le> unat c div 2"
    using f a' c2 by (simp add: power_increasing)
  show "unat c div 4 < unat c div 2" using c2 c4 a'' by simp
  show "0 < unat c div 4" using c4 by simp
  have "unat c div 2 div 4 = 2 ^ a'' div 2" using c2 a'' by simp
  also have "\<dots> < 2 ^ a''" by simp
  finally show "unat c div 2 div 4 < unat c div 4" using c4 by simp
qed

lemma draining_step:
  assumes "draining b es p (Suc j)"
  shows "\<exists>p' t. pipe_pop p 1 = Pop_returned p' t 1 \<and> draining b es p' j \<and> length t = unat es"
proof -
  from assms have ok: "mem_ok p" and ec: "unat (elem_count p) = Suc j" and es: "elem_size p = es"
    and mn: "min_cap p = DEFAULT_MINCAP b" and mx: "max_cap p = NOT 0"
    and p2: "is_pow2 (capacity p)" and fl: "DEFAULT_MINCAP b \<le> capacity p"
    and q: "capacity p = DEFAULT_MINCAP b \<or> unat (capacity p) div 4 < Suc j"
    by (simp_all add: draining_def)
  have ecnz: "elem_count p \<noteq> 0" using ec by (auto simp: unat_eq_zero [symmetric] simp del: unat_eq_zero)
  have one_le: "(1 :: size_t) \<le> elem_count p"
    using ec by (simp add: word_le_nat_alt)
  then have min1: "min 1 (elem_count p) = 1" by (simp add: min_def)
  from pop_without_locking_mem_ok [OF ok, of 1] min1 obtain p' t where
    pop: "pop_without_locking p 1 = Some (p', t, 1)" and ok': "mem_ok p'"
    and lt: "length t = unat (elem_size p)" by auto
  have "\<not> (1 :: size_t) > NOT 0" by (simp add: not_less)
  then have pp: "pipe_pop p 1 = Pop_returned p' t 1"
    using pop ecnz one_le mx
    by (simp add: pipe_pop_def Let_def word_greater_zero_iff not_less)
  note f = pop_without_locking_fields [OF pop]
  have ec': "unat (elem_count p') = j"
    using f(2) min1 one_le ec by (simp add: unat_sub)
  define C where "C = capacity p"
  have half_lt: "\<not> max_cap p \<le> C div 2"
  proof -
    have "unat (C div 2) < 2 ^ 64 - 1"
      using unat_size_t_less [of C] by (simp add: unat_div)
    moreover have "unat (NOT 0 :: size_t) = 2 ^ 64 - 1" by (simp add: unsigned_minus_1_eq_mask mask_eq_exp_minus_1)
    ultimately show ?thesis using mx by (simp add: word_le_nat_alt)
  qed
  have cap: "capacity p' =
     (if elem_count p' \<le> C div 4
      then (if C div 2 \<le> elem_count p' \<or> C div 2 < DEFAULT_MINCAP b then C else C div 2)
      else C)"
    using pop_without_locking_capacity_eq [OF pop] half_lt mn by (simp add: C_def Let_def)
  have rest: "is_pow2 (capacity p') \<and> DEFAULT_MINCAP b \<le> capacity p' \<and>
     (capacity p' = DEFAULT_MINCAP b \<or> unat (capacity p') div 4 < j)"
  proof (cases "elem_count p' \<le> C div 4")
    case False
    then have "unat C div 4 < j" using ec' by (simp add: word_le_nat_alt unat_div not_le)
    with False cap p2 fl show ?thesis by (simp add: C_def)
  next
    case True
    then have jle: "j \<le> unat C div 4" using ec' by (simp add: word_le_nat_alt unat_div)
    show ?thesis
    proof (cases "C = DEFAULT_MINCAP b")
      case eq: True
      with floor_half_less [of b] True cap have "capacity p' = C" by simp
      with eq p2 show ?thesis by (simp add: C_def)
    next
      case ne: False
      with q have "unat C div 4 < Suc j" by (simp add: C_def)
      with jle have j: "j = unat C div 4" by simp
      note pw = pow2_above_floor [OF p2 [folded C_def] fl [folded C_def] ne]
      have n1: "\<not> C div 2 \<le> elem_count p'"
        using pw(2) j ec' by (simp add: word_le_nat_alt unat_div)
      have n2: "\<not> C div 2 < DEFAULT_MINCAP b"
        using pw(1) by (simp add: word_less_nat_alt unat_div)
      from True n1 n2 cap have c': "capacity p' = C div 2" by simp
      have nz: "C div 2 \<noteq> 0"
        using pw(2) by (auto simp: unat_eq_zero [symmetric] unat_div simp del: unat_eq_zero)
      have "is_pow2 (C div 2)" using p2 nz unfolding C_def by (rule is_pow2_half)
      moreover have "DEFAULT_MINCAP b \<le> C div 2"
        using pw(1) by (simp add: word_le_nat_alt unat_div)
      moreover have "unat (C div 2) div 4 < j" using pw(3) j by (simp add: unat_div)
      ultimately show ?thesis using c' by simp
    qed
  qed
  have "draining b es p' j"
    using ok' ec' f(1,3,4) es mn mx rest by (simp add: draining_def)
  with pp lt es show ?thesis by auto
qed

lemma draining_pop_each:
  assumes "draining b es p j"
  shows "\<exists>p' t. pop_each j p = Some (p', t) \<and> draining b es p' 0 \<and> length t = j * unat es"
  using assms
proof (induction j arbitrary: p)
  case 0
  then show ?case by simp
next
  case (Suc j)
  from draining_step [OF Suc.prems] obtain p1 t1 where
    s: "pipe_pop p 1 = Pop_returned p1 t1 1" "draining b es p1 j" "length t1 = unat es"
    by blast
  from Suc.IH [OF s(2)] obtain p' t where
    r: "pop_each j p1 = Some (p', t)" "draining b es p' 0" "length t = j * unat es" by blast
  from s r show ?case by simp
qed

lemma top_not_small: "n \<le> 2 ^ 63 \<Longrightarrow> \<not> (NOT 0 :: size_t) \<le> n"
proof
  assume "n \<le> 2 ^ 63" and "(NOT 0 :: size_t) \<le> n"
  then have "(NOT 0 :: size_t) \<le> 2 ^ 63" by (rule order_trans [rotated])
  moreover have "\<not> (NOT 0 :: size_t) \<le> 2 ^ 63" by code_simp
  ultimately show False by simp
qed

lemma next_pow2_le_top:
  assumes "n \<le> 2 ^ 63"
  shows "next_pow2 n \<le> 2 ^ 63"
proof (cases "n = 0 \<or> n = 2 ^ 63")
  case True
  then show ?thesis
  proof
    assume "n = 0"
    moreover have "next_pow2 0 = 0" by code_simp
    ultimately show ?thesis by simp
  next
    assume "n = 2 ^ 63"
    then show ?thesis by (simp add: next_pow2_alt)
  qed
next
  case False
  with assms have nz: "n \<noteq> 0" and lt: "n < 2 ^ 63" by (auto simp: less_le)
  from next_pow2_small [OF nz lt] obtain j where j: "j < 64" "next_pow2 n = 2 ^ j"
    "(2 ^ j :: nat) div 2 < unat n" by blast
  have "unat n < 2 ^ 63" using lt by (simp add: word_less_nat_alt)
  with j(3) have h: "(2 ^ j :: nat) div 2 < 2 ^ 63" by simp
  have "j \<le> 63"
  proof (rule ccontr)
    assume "\<not> j \<le> 63"
    then have "64 \<le> j" by simp
    then have "(2 :: nat) ^ 64 \<le> 2 ^ j" by (intro power_increasing) simp_all
    with h show False by simp
  qed
  then have "(2 ^ j :: nat) \<le> 2 ^ 63" by (intro power_increasing) simp_all
  with j show ?thesis by (simp add: word_le_nat_alt unat_pow2)
qed

lemma push_fresh_draining:
  assumes es: "es \<noteq> 0" and N: "N \<le> 2 ^ 63"
    and fits: "unat es * unat (max (DEFAULT_MINCAP b) (next_pow2 N)) < 2 ^ 64"
    and src: "unat N * unat es \<le> length elems"
  shows "\<exists>p1 c. pipe_push [] (pipe_new b es 0) elems N = Push_returned p1 c \<and>
                draining b es p1 (unat N) \<and>
                capacity p1 = (if N > DEFAULT_MINCAP b then next_pow2 N else DEFAULT_MINCAP b) \<and>
                check_invariants b (pipe_new b es 0) \<and>
                (check_invariants b p1 \<longleftrightarrow> N < capacity p1) \<and>
                (N \<noteq> 0 \<longrightarrow>
                   (push_locked_asserts b (pipe_new b es 0) elems N \<longleftrightarrow> N < capacity p1))"
proof -
  define p0 where "p0 = pipe_new b es 0"
  have f0: "elem_count p0 = 0" "elem_size p0 = es" "capacity p0 = DEFAULT_MINCAP b"
    "min_cap p0 = DEFAULT_MINCAP b" "max_cap p0 = NOT 0" "consumer_refcount p0 = 1"
    by (simp_all add: p0_def pipe_new_def fix_bufend_def)
  have "unat (DEFAULT_MINCAP b) \<le> unat (max (DEFAULT_MINCAP b) (next_pow2 N))"
    by (simp add: word_le_nat_alt [symmetric])
  then have "unat es * unat (DEFAULT_MINCAP b) \<le> unat es * unat (max (DEFAULT_MINCAP b) (next_pow2 N))"
    by (rule mult_le_mono2)
  then have fl64: "unat es * unat (DEFAULT_MINCAP b) < 2 ^ 64" using fits by (rule le_less_trans)
  have ok0: "mem_ok p0" unfolding p0_def using es fl64 by (rule pipe_new_mem_ok)
  have chk0: "check_invariants b p0" unfolding p0_def using es fl64
    by (rule pipe_new_check_invariants)
  have d0: "draining b es p0 0"
    using ok0 f0 DEFAULT_MINCAP_pow2 [of b] by (simp add: draining_def)
  show ?thesis
  proof (cases "N = 0")
    case True
    have "(0 :: size_t) < DEFAULT_MINCAP b" by (cases b) simp_all
    with True d0 chk0 f0(3) show ?thesis
      by (simp add: pipe_push.simps p0_def [symmetric] not_less)
  next
    case nz: False
    have k: "N \<le> max_cap p0 - elem_count p0" using f0 by simp
    have src': "unat N * unat (elem_size p0) \<le> length elems" using src f0 by simp
    have nt: "\<not> max_cap p0 \<le> next_pow2 N"
      using top_not_small [OF next_pow2_le_top [OF N]] f0(5) by simp
    then have clamp: "(if next_pow2 N \<ge> max_cap p0 then max_cap p0 else next_pow2 N) = next_pow2 N"
      by simp
    have "unat (next_pow2 N) \<le> unat (max (DEFAULT_MINCAP b) (next_pow2 N))"
      by (simp add: word_le_nat_alt [symmetric])
    then have "unat es * unat (next_pow2 N) \<le> unat es * unat (max (DEFAULT_MINCAP b) (next_pow2 N))"
      by (rule mult_le_mono2)
    then have "unat es * unat (next_pow2 N) < 2 ^ 64" using fits by (rule le_less_trans)
    then have np64: "unat (next_pow2 N) * unat es < 2 ^ 64" by (simp add: mult.commute)
    have grow: "elem_count p0 + N > capacity p0 \<Longrightarrow>
        unat (if next_pow2 (elem_count p0 + N) \<ge> max_cap p0 then max_cap p0
              else next_pow2 (elem_count p0 + N)) * unat (elem_size p0) < 2 ^ 64"
      using nt np64 f0(1,2) by simp
    from push_without_locking_consistent [OF ok0 chk0 k src' grow] obtain p1 where
      p1: "push_without_locking p0 elems N = Some p1" and ok1: "mem_ok p1"
      and as1: "push_without_locking_asserts b p0 elems N \<longleftrightarrow> elem_count p1 < capacity p1"
      and chk1: "check_invariants b p1 \<longleftrightarrow> elem_count p1 < capacity p1" by blast
    have pl: "push_locked p0 elems N = Pushed p1 N"
      using p1 f0 top_not_small [of 0] by (simp add: push_locked_def Let_def)
    have pp: "pipe_push [] p0 elems N = Push_returned p1 (Suc 0)"
      using nz pl by (simp add: pipe_push.simps)
    note f1 = push_without_locking_fields [OF p1]
    have ec1: "elem_count p1 = N" using f1(2) f0(1) by simp
    have "push_locked_asserts b p0 elems N \<longleftrightarrow> push_without_locking_asserts b p0 elems N"
      using chk0 f0 nz top_not_small [of 0]
      by (simp add: push_locked_asserts_def Let_def word_greater_zero_iff)
    with as1 ec1 have pla: "push_locked_asserts b p0 elems N \<longleftrightarrow> N < capacity p1" by simp
    have cap1: "capacity p1 = (if N > DEFAULT_MINCAP b then next_pow2 N else DEFAULT_MINCAP b)"
    proof (cases "N > DEFAULT_MINCAP b")
      case False
      with push_without_locking_capacity [OF p1] f0 show ?thesis by simp
    next
      case True
      with push_without_locking_capacity [OF p1] f0 obtain q where
        q: "resize_buffer p0 (next_pow2 N) = Some q" "capacity p1 = capacity q" by auto
      have "\<not> (next_pow2 N \<le> elem_count p0 \<or> next_pow2 N < min_cap p0)"
        using True next_pow2_ge [of N] nz f0 by (auto simp: not_less)
      with resize_buffer_capacity [OF q(1)] clamp have "capacity q = next_pow2 N"
        by (simp add: Let_def)
      with q(2) True show ?thesis by simp
    qed
    have rest: "is_pow2 (capacity p1) \<and> DEFAULT_MINCAP b \<le> capacity p1 \<and>
       (capacity p1 = DEFAULT_MINCAP b \<or> unat (capacity p1) div 4 < unat N)"
    proof (cases "N > DEFAULT_MINCAP b")
      case False
      with cap1 DEFAULT_MINCAP_pow2 [of b] show ?thesis by simp
    next
      case True
      have "is_pow2 (next_pow2 N)" using nz N by (rule next_pow2_is_pow2)
      moreover have "DEFAULT_MINCAP b \<le> next_pow2 N"
        using True next_pow2_ge [of N] by (metis less_imp_le order_trans)
      moreover have "unat (next_pow2 N) div 4 < unat N"
      proof -
        from next_pow2_half_less [OF nz] have "unat (next_pow2 N) div 2 < unat N"
          by (simp add: word_less_nat_alt unat_div)
        moreover have "unat (next_pow2 N) div 4 \<le> unat (next_pow2 N) div 2" by simp
        ultimately show ?thesis by simp
      qed
      ultimately show ?thesis using True cap1 by simp
    qed
    have "draining b es p1 (unat N)"
      using ok1 f1 f0 rest by (simp add: draining_def)
    with pp cap1 chk0 chk1 ec1 pla show ?thesis unfolding p0_def by auto
  qed
qed

lemma draining_asserts:
  assumes "draining b es p j" and "check_invariants b p"
  shows "pop_each_asserts b j p"
  using assms
proof (induction j arbitrary: p)
  case 0
  then show ?case by simp
next
  case (Suc j)
  from draining_step [OF Suc.prems(1)] obtain p1 t1 where
    s: "pipe_pop p 1 = Pop_returned p1 t1 1" "draining b es p1 j" by blast
  from Suc.prems(1) have ok: "mem_ok p" by (simp add: draining_def)
  from pipe_pop_returnedD(4) [OF s(1)]
  have nowait: "\<not> (elem_count p < min 1 (max_cap p) \<and> producer_refcount p \<noteq> 0)" .
  from pipe_pop_consistent [OF ok Suc.prems(2) nowait] s(1)
  have a: "pipe_pop_asserts b p 1" and c: "check_invariants b p1" by auto
  from Suc.IH [OF s(2) c] a s(1) show ?case by simp
qed

section \<open>Lemmas: a full buffer that grows\<close>

text \<open>
  When \<open>elem_count = capacity\<close> the cursors are equal, \<open>wraps_around\<close> is false and
  \<^verbatim>\<open>copy_pipe_into_new_buf\<close> copies \<open>end - begin = 0\<close> bytes. After that the cursors
  describe fewer bytes than \<open>elem_count\<close>, and a later shrink can copy more bytes than
  the new block holds.
\<close>

lemma heap_overflow_after_full_buffer_grows:
  "(case pipe_push [] (pipe_new RELEASE 1 0) (first_bytes 32) 32 of
      Push_returned p1 c1 \<Rightarrow>
        (case pipe_push [] p1 (replicate 100 7) 100 of
           Push_returned p2 c2 \<Rightarrow> pipe_pop p2 132 = Pop_crashed
         | _ \<Rightarrow> False)
    | _ \<Rightarrow> False)"
  by code_simp

section \<open>The claims\<close>

text \<open>
  C10. \<^verbatim>\<open>pipe_producer_new\<close> adds one to \<open>producer_refcount\<close> (in \<^verbatim>\<open>size_t\<close>
  arithmetic) and \<^verbatim>\<open>pipe_consumer_new\<close> adds one to \<open>consumer_refcount\<close>; each leaves
  every other field of the pipe as it was. The handle returned is the pipe itself.
\<close>

theorem handle_minting_frame:
  "producer_refcount (pipe_producer_new p) = producer_refcount p + 1 \<and>
   consumer_refcount (pipe_producer_new p) = consumer_refcount p \<and>
   elem_size (pipe_producer_new p) = elem_size p \<and>
   elem_count (pipe_producer_new p) = elem_count p \<and>
   capacity (pipe_producer_new p) = capacity p \<and>
   min_cap (pipe_producer_new p) = min_cap p \<and>
   max_cap (pipe_producer_new p) = max_cap p \<and>
   buffer (pipe_producer_new p) = buffer p \<and>
   bufend (pipe_producer_new p) = bufend p \<and>
   begin_ptr (pipe_producer_new p) = begin_ptr p \<and>
   end_ptr (pipe_producer_new p) = end_ptr p \<and>
   consumer_refcount (pipe_consumer_new p) = consumer_refcount p + 1 \<and>
   producer_refcount (pipe_consumer_new p) = producer_refcount p \<and>
   elem_size (pipe_consumer_new p) = elem_size p \<and>
   elem_count (pipe_consumer_new p) = elem_count p \<and>
   capacity (pipe_consumer_new p) = capacity p \<and>
   min_cap (pipe_consumer_new p) = min_cap p \<and>
   max_cap (pipe_consumer_new p) = max_cap p \<and>
   buffer (pipe_consumer_new p) = buffer p \<and>
   bufend (pipe_consumer_new p) = bufend p \<and>
   begin_ptr (pipe_consumer_new p) = begin_ptr p \<and>
   end_ptr (pipe_consumer_new p) = end_ptr p"
  by (simp add: pipe_producer_new_def pipe_consumer_new_def)

text \<open>
  C4. A push on a pipe whose \<open>consumer_refcount\<close> is 0 returns at once, whatever the
  other threads do and whatever the count, without pushing a chunk and without waiting,
  and the pipe it leaves is the pipe it found.
\<close>

theorem push_without_consumers:
  assumes "consumer_refcount p = 0"
  shows "pipe_push env p elems count = Push_returned p 0"
proof (cases "count = 0")
  case True
  then show ?thesis by (simp add: pipe_push.simps)
next
  case False
  from assms have "push_locked p elems count = Push_no_consumers"
    by (simp add: push_locked_def)
  with False show ?thesis by (simp add: pipe_push.simps)
qed

theorem push_without_consumers_witness:
  "pipe_consumer_free (pipe_new RELEASE 1 0) =
     Alive ((pipe_new RELEASE 1 0)\<lparr>consumer_refcount := 0, buffer := None\<rparr>) \<and>
   consumer_refcount ((pipe_new RELEASE 1 0)\<lparr>consumer_refcount := 0, buffer := None\<rparr>) = 0 \<and>
   pipe_push [] ((pipe_new RELEASE 1 0)\<lparr>consumer_refcount := 0, buffer := None\<rparr>) [1, 2, 3] 3 =
     Push_returned ((pipe_new RELEASE 1 0)\<lparr>consumer_refcount := 0, buffer := None\<rparr>) 0"
proof -
  have a: "pipe_consumer_free (pipe_new RELEASE 1 0) =
     Alive ((pipe_new RELEASE 1 0)\<lparr>consumer_refcount := 0, buffer := None\<rparr>)"
    by (simp add: pipe_consumer_free_def pipe_new_def fix_bufend_def requires_deallocation_def
        Let_def)
  have b: "consumer_refcount ((pipe_new RELEASE 1 0)\<lparr>consumer_refcount := 0, buffer := None\<rparr>) = 0"
    by simp
  from a b push_without_consumers [OF b, of "[]" "[1, 2, 3]" 3] show ?thesis by simp
qed




text \<open>
  C2, as amended. For a pipe created with \<open>limit > 0\<close>, after any sequence of critical
  sections \<open>elem_count\<close> is at most \<open>max_cap\<close>, which is
  \<open>next_pow2 (max limit DEFAULT_MINCAP)\<close> and at least \<open>limit\<close>.
\<close>

theorem bounded_queue_limit:
  assumes "limit \<noteq> 0" and "run b ops (pipe_new b es limit) = Some p"
  shows "elem_count p \<le> max_cap p \<and>
         max_cap p = next_pow2 (max limit (DEFAULT_MINCAP b)) \<and>
         limit \<le> max_cap p"
proof -
  from run_cap_inv [OF pipe_new_cap_inv assms(2)]
  have "cap_inv p" and m: "max_cap p = max_cap (pipe_new b es limit)" by simp_all
  then have "elem_count p \<le> max_cap p" unfolding cap_inv_def by (metis order_trans)
  moreover from m assms(1) have mc: "max_cap p = next_pow2 (max limit (DEFAULT_MINCAP b))"
    by (simp add: pipe_new_def fix_bufend_def)
  moreover have "limit \<le> max limit (DEFAULT_MINCAP b)" by simp
  with next_pow2_ge [of "max limit (DEFAULT_MINCAP b)"] mc have "limit \<le> max_cap p"
    by (metis order_trans)
  ultimately show ?thesis by simp
qed

theorem bounded_queue_limit_witness:
  "(8 :: size_t) \<noteq> 0 \<and>
   (\<exists>p. run RELEASE [Push (replicate 40 7) 40, Pop 3] (pipe_new RELEASE 1 8) = Some p \<and>
        elem_count p \<le> max_cap p \<and> max_cap p = 32 \<and> 8 \<le> max_cap p)"
proof -
  have "run RELEASE [Push (replicate 40 7) 40, Pop 3] (pipe_new RELEASE 1 8) \<noteq> None"
    by code_simp
  then obtain p where p: "run RELEASE [Push (replicate 40 7) 40, Pop 3] (pipe_new RELEASE 1 8) = Some p"
    by blast
  have n: "(8 :: size_t) \<noteq> 0" by simp
  have "next_pow2 (max 8 (DEFAULT_MINCAP RELEASE)) = 32" by code_simp
  with bounded_queue_limit [OF n p] p show ?thesis by auto
qed

theorem bounded_queue_limit_counterexample:
  "map_option elem_count (run RELEASE [Push (replicate 9 7) 9] (pipe_new RELEASE 1 8)) = Some 9 \<and>
   \<not> (9 :: size_t) \<le> 8"
  by code_simp

text \<open>
  C5, as amended. A new pipe satisfies \<open>min_cap \<le> capacity \<le> max_cap\<close> and
  \<open>elem_count \<le> capacity\<close>, and so does the pipe after any sequence of pushes, pops
  and reserves. The capacity of a new pipe is a power of two; a pop keeps it one, and so
  does a push that brings the count to at most \<open>2 ^ 63\<close> on a pipe whose \<open>max_cap\<close> is a
  power of two or unlimited.
\<close>

theorem capacity_bounds:
  "cap_inv (pipe_new b es limit) \<and>
   is_pow2 (capacity (pipe_new b es limit)) \<and>
   (run b ops (pipe_new b es limit) = Some q \<longrightarrow> cap_inv q) \<and>
   (is_pow2 (capacity p) \<and> cap_inv p \<and> pipe_pop p n = Pop_returned p' t r \<longrightarrow>
      is_pow2 (capacity p')) \<and>
   (is_pow2 (capacity p) \<and> cap_inv p \<and> (is_pow2 (max_cap p) \<or> max_cap p = NOT 0) \<and>
    push_locked p elems count = Pushed p'' k \<and> unat (elem_count p) + unat k \<le> 2 ^ 63 \<longrightarrow>
      is_pow2 (capacity p''))"
proof -
  have "is_pow2 (capacity (pipe_new b es limit))"
    using DEFAULT_MINCAP_pow2 [of b] by (simp add: pipe_new_def fix_bufend_def)
  moreover have "run b ops (pipe_new b es limit) = Some q \<longrightarrow> cap_inv q"
    using run_cap_inv [OF pipe_new_cap_inv] by blast
  moreover have "is_pow2 (capacity p) \<and> cap_inv p \<and> pipe_pop p n = Pop_returned p' t r \<longrightarrow>
      is_pow2 (capacity p')"
    using pipe_pop_pow2 [of p n p' t r] by (auto simp: cap_inv_def)
  moreover have "is_pow2 (capacity p) \<and> cap_inv p \<and> (is_pow2 (max_cap p) \<or> max_cap p = NOT 0) \<and>
    push_locked p elems count = Pushed p'' k \<and> unat (elem_count p) + unat k \<le> 2 ^ 63 \<longrightarrow>
      is_pow2 (capacity p'')"
    using push_locked_pow2 [of p elems count p'' k] by blast
  ultimately show ?thesis using pipe_new_cap_inv [of b es limit] by blast
qed

theorem capacity_bounds_witness:
  "(\<exists>q. run RELEASE [Push (replicate 40 7) 40, Pop 35, Reserve 100] (pipe_new RELEASE 1 0) = Some q \<and>
        cap_inv q) \<and>
   max_cap (pipe_new RELEASE 1 0) = NOT 0 \<and>
   unat (elem_count (pipe_new RELEASE 1 0)) + unat (3 :: size_t) \<le> 2 ^ 63 \<and>
   push_locked (pipe_new RELEASE 1 0) [1, 2, 3] 3 = Pushed three_bytes 3 \<and>
   is_pow2 (capacity three_bytes) \<and> cap_inv three_bytes \<and>
   (\<exists>p' t r. pipe_pop three_bytes 2 = Pop_returned p' t r \<and> is_pow2 (capacity p'))"
proof -
  have "run RELEASE [Push (replicate 40 7) 40, Pop 35, Reserve 100] (pipe_new RELEASE 1 0) \<noteq> None"
    by code_simp
  then obtain q where
    q: "run RELEASE [Push (replicate 40 7) 40, Pop 35, Reserve 100] (pipe_new RELEASE 1 0) = Some q"
    by blast
  have mx: "max_cap (pipe_new RELEASE 1 0) = NOT 0" by (simp add: pipe_new_def fix_bufend_def)
  have sm: "unat (elem_count (pipe_new RELEASE 1 0)) + unat (3 :: size_t) \<le> 2 ^ 63"
    by (simp add: pipe_new_def fix_bufend_def)
  note t1 = capacity_bounds [where b = RELEASE and es = 1 and limit = 0
      and ops = "[Push (replicate 40 7) 40, Pop 35, Reserve 100]" and q = q
      and p = "pipe_new RELEASE 1 0" and elems = "[1, 2, 3]" and count = 3
      and p'' = three_bytes and k = 3]
  from t1 q have cq: "cap_inv q" by blast
  from t1 mx sm three_bytes_pushed have p3: "is_pow2 (capacity three_bytes)" by blast
  have c3: "cap_inv three_bytes" by (simp add: cap_inv_def three_bytes_def)
  have "case pipe_pop three_bytes 2 of Pop_returned p' t r \<Rightarrow> True | _ \<Rightarrow> False"
    by code_simp
  then obtain p' t r where pp: "pipe_pop three_bytes 2 = Pop_returned p' t r"
    by (cases "pipe_pop three_bytes 2") simp_all
  from capacity_bounds [where p = three_bytes and n = 2 and p' = p' and t = t and r = r]
    p3 c3 pp
  have "is_pow2 (capacity p')" by blast
  with q cq mx sm three_bytes_pushed p3 c3 pp show ?thesis by blast
qed

theorem capacity_bounds_counterexample:
  "map_option capacity (pipe_reserve RELEASE (pipe_new RELEASE 1 0) 100) = Some 100 \<and>
   \<not> is_pow2 100"
proof -
  have "map_option capacity (pipe_reserve RELEASE (pipe_new RELEASE 1 0) 100) = Some 100"
    by code_simp
  moreover have "(100 :: size_t) AND (100 - 1) \<noteq> 0" by code_simp
  then have "\<not> is_pow2 100" using pow2_and_pred [of 100] by blast
  ultimately show ?thesis by simp
qed




text \<open>
  C8, at the failing input. In a release build the floor \<^verbatim>\<open>DEFAULT_MINCAP\<close> is 32.
  \<^verbatim>\<open>pipe_reserve(p, 5)\<close> on a new pipe sets \<open>min_cap\<close> and \<open>capacity\<close> to 5, below the
  floor, and \<open>check_invariants\<close>, true on the new pipe, is false on the result. The build
  with assertions aborts in that call, and also in \<^verbatim>\<open>pipe_reserve(p, 100)\<close>, where
  \<open>min_cap\<close> is raised above \<open>capacity\<close> before \<^verbatim>\<open>resize_buffer\<close> checks the invariants.
  In a debug build, where the floor is 2, \<^verbatim>\<open>pipe_reserve(p, 1)\<close> sets \<open>min_cap\<close> to 1.
\<close>

theorem reserve_below_floor:
  "map_option (\<lambda>p. (min_cap p, capacity p, check_invariants RELEASE p))
     (pipe_reserve RELEASE (pipe_new RELEASE 1 0) 5) = Some (5, 5, False) \<and>
   DEFAULT_MINCAP RELEASE = 32 \<and>
   check_invariants RELEASE (pipe_new RELEASE 1 0) \<and>
   \<not> pipe_reserve_asserts RELEASE (pipe_new RELEASE 1 0) 5 \<and>
   \<not> pipe_reserve_asserts RELEASE (pipe_new RELEASE 1 0) 100 \<and>
   map_option (\<lambda>p. (min_cap p, check_invariants DEBUG p))
     (pipe_reserve DEBUG (pipe_new DEBUG 1 0) 1) = Some (1, False) \<and>
   DEFAULT_MINCAP DEBUG = 2"
  by code_simp

text \<open>
  C7, as amended. Push \<open>N\<close> elements with one push into a new unlimited pipe, the grown
  buffer fitting the address space (\<^verbatim>\<open>malloc\<close> is taken to succeed), then pop them
  one element per pop: every pop returns, and at the end the pipe is empty and its
  capacity is \<open>min_cap\<close>, the built-in floor. So it is in a build with \<^verbatim>\<open>NDEBUG\<close>. The
  build with assertions passes every assertion of the push and of the pops exactly when
  \<open>N\<close> is neither the floor nor a greater power of two; for those \<open>N\<close> the push fills
  the buffer and the program aborts in \<^verbatim>\<open>check_invariants\<close> at the end of the push.
\<close>

theorem shrink_round_trip:
  assumes "es \<noteq> 0" and "N \<le> 2 ^ 63"
    and "unat es * unat (max (DEFAULT_MINCAP b) (next_pow2 N)) < 2 ^ 64"
    and "unat N * unat es \<le> length elems"
  shows "\<exists>p1 c p2 t.
           pipe_push [] (pipe_new b es 0) elems N = Push_returned p1 c \<and>
           elem_count p1 = N \<and>
           pop_each (unat N) p1 = Some (p2, t) \<and>
           length t = unat N * unat es \<and>
           elem_count p2 = 0 \<and>
           capacity p2 = min_cap p2 \<and>
           min_cap p2 = DEFAULT_MINCAP b \<and>
           check_invariants b (pipe_new b es 0) \<and>
           (N \<noteq> 0 \<longrightarrow>
              (push_locked_asserts b (pipe_new b es 0) elems N \<and>
               pop_each_asserts b (unat N) p1 \<longleftrightarrow>
               \<not> (N = DEFAULT_MINCAP b \<or> DEFAULT_MINCAP b < N \<and> is_pow2 N)))"
proof -
  from push_fresh_draining [OF assms] obtain p1 c where
    p: "pipe_push [] (pipe_new b es 0) elems N = Push_returned p1 c"
    and d: "draining b es p1 (unat N)"
    and cap: "capacity p1 = (if N > DEFAULT_MINCAP b then next_pow2 N else DEFAULT_MINCAP b)"
    and chk0: "check_invariants b (pipe_new b es 0)"
    and chk1: "check_invariants b p1 \<longleftrightarrow> N < capacity p1"
    and pla: "N \<noteq> 0 \<longrightarrow>
                (push_locked_asserts b (pipe_new b es 0) elems N \<longleftrightarrow> N < capacity p1)"
    by blast
  from draining_pop_each [OF d] obtain p2 t where
    q: "pop_each (unat N) p1 = Some (p2, t)" "draining b es p2 0"
      "length t = unat N * unat es" by blast
  from d have ec1: "elem_count p1 = N" by (simp add: draining_def word_unat_eq_iff)
  from q(2) have e2: "elem_count p2 = 0" "capacity p2 = min_cap p2"
    "min_cap p2 = DEFAULT_MINCAP b"
    by (auto simp: draining_def unat_eq_zero)
  have full: "N < capacity p1 \<longleftrightarrow> \<not> (N = DEFAULT_MINCAP b \<or> DEFAULT_MINCAP b < N \<and> is_pow2 N)"
    if nz: "N \<noteq> 0"
  proof (cases "N > DEFAULT_MINCAP b")
    case True
    have ge: "N \<le> next_pow2 N" by (rule next_pow2_ge)
    have "N = next_pow2 N \<longleftrightarrow> is_pow2 N"
      using next_pow2_is_pow2 [OF nz assms(2)] next_pow2_fixed [of N] by auto
    with True cap ge show ?thesis by (auto simp: less_le)
  next
    case False
    with cap show ?thesis by (auto simp: not_less less_le)
  qed
  have "push_locked_asserts b (pipe_new b es 0) elems N \<and> pop_each_asserts b (unat N) p1 \<longleftrightarrow>
        N < capacity p1" if nz: "N \<noteq> 0"
  proof (cases "N < capacity p1")
    case True
    with chk1 have "check_invariants b p1" by simp
    from draining_asserts [OF d this] pla nz True show ?thesis by simp
  next
    case False
    with pla nz show ?thesis by simp
  qed
  with full have "N \<noteq> 0 \<longrightarrow>
     (push_locked_asserts b (pipe_new b es 0) elems N \<and> pop_each_asserts b (unat N) p1 \<longleftrightarrow>
      \<not> (N = DEFAULT_MINCAP b \<or> DEFAULT_MINCAP b < N \<and> is_pow2 N))" by simp
  with p ec1 q(1,3) e2 chk0 show ?thesis by blast
qed

theorem shrink_round_trip_witness:
  "(1 :: size_t) \<noteq> 0 \<and> (100 :: size_t) \<le> 2 ^ 63 \<and>
   unat (1 :: size_t) * unat (max (DEFAULT_MINCAP RELEASE) (next_pow2 100)) < 2 ^ 64 \<and>
   unat (100 :: size_t) * unat (1 :: size_t) \<le> length (replicate 100 (7 :: byte)) \<and>
   (\<exists>p1 c p2 t.
      pipe_push [] (pipe_new RELEASE 1 0) (replicate 100 7) 100 = Push_returned p1 c \<and>
      elem_count p1 = 100 \<and>
      pop_each (unat (100 :: size_t)) p1 = Some (p2, t) \<and>
      length t = 100 \<and>
      capacity p2 = 32 \<and> min_cap p2 = 32 \<and>
      check_invariants RELEASE (pipe_new RELEASE 1 0) \<and>
      push_locked_asserts RELEASE (pipe_new RELEASE 1 0) (replicate 100 7) 100 \<and>
      pop_each_asserts RELEASE (unat (100 :: size_t)) p1) \<and>
   (64 :: size_t) \<le> 2 ^ 63 \<and>
   unat (1 :: size_t) * unat (max (DEFAULT_MINCAP RELEASE) (next_pow2 64)) < 2 ^ 64 \<and>
   unat (64 :: size_t) * unat (1 :: size_t) \<le> length (replicate 64 (7 :: byte)) \<and>
   (\<exists>p1 c p2 t.
      pipe_push [] (pipe_new RELEASE 1 0) (replicate 64 7) 64 = Push_returned p1 c \<and>
      pop_each (unat (64 :: size_t)) p1 = Some (p2, t) \<and>
      capacity p2 = 32 \<and>
      \<not> (push_locked_asserts RELEASE (pipe_new RELEASE 1 0) (replicate 64 7) 64 \<and>
         pop_each_asserts RELEASE (unat (64 :: size_t)) p1))"
proof -
  have a: "(1 :: size_t) \<noteq> 0" by simp
  have b: "(100 :: size_t) \<le> 2 ^ 63" by simp
  have np: "next_pow2 100 = 128" by code_simp
  have c: "unat (1 :: size_t) * unat (max (DEFAULT_MINCAP RELEASE) (next_pow2 100)) < 2 ^ 64"
    by (simp add: np)
  have d: "unat (100 :: size_t) * unat (1 :: size_t) \<le> length (replicate 100 (7 :: byte))"
    by simp
  have "(100 :: size_t) AND (100 - 1) \<noteq> 0" by code_simp
  then have n100: "\<not> is_pow2 100" using pow2_and_pred [of 100] by blast
  have x: "(100 :: size_t) \<noteq> 0 \<and> \<not> (100 = DEFAULT_MINCAP RELEASE \<or>
              DEFAULT_MINCAP RELEASE < 100 \<and> is_pow2 100)"
    using n100 by simp
  from shrink_round_trip [OF a b c d] x
  have w1: "\<exists>p1 c p2 t.
      pipe_push [] (pipe_new RELEASE 1 0) (replicate 100 7) 100 = Push_returned p1 c \<and>
      elem_count p1 = 100 \<and>
      pop_each (unat (100 :: size_t)) p1 = Some (p2, t) \<and>
      length t = 100 \<and>
      capacity p2 = 32 \<and> min_cap p2 = 32 \<and>
      check_invariants RELEASE (pipe_new RELEASE 1 0) \<and>
      push_locked_asserts RELEASE (pipe_new RELEASE 1 0) (replicate 100 7) 100 \<and>
      pop_each_asserts RELEASE (unat (100 :: size_t)) p1"
    by auto
  have b': "(64 :: size_t) \<le> 2 ^ 63" by simp
  have np': "next_pow2 64 = 64" by code_simp
  have c': "unat (1 :: size_t) * unat (max (DEFAULT_MINCAP RELEASE) (next_pow2 64)) < 2 ^ 64"
    by (simp add: np')
  have d': "unat (64 :: size_t) * unat (1 :: size_t) \<le> length (replicate 64 (7 :: byte))"
    by simp
  have "is_pow2 (64 :: size_t)" unfolding is_pow2_def by (intro exI [of _ 6]) simp
  then have x': "(64 :: size_t) \<noteq> 0 \<and> (64 = DEFAULT_MINCAP RELEASE \<or>
              DEFAULT_MINCAP RELEASE < 64 \<and> is_pow2 64)" by simp
  from shrink_round_trip [OF a b' c' d'] x'
  have w2: "\<exists>p1 c p2 t.
      pipe_push [] (pipe_new RELEASE 1 0) (replicate 64 7) 64 = Push_returned p1 c \<and>
      pop_each (unat (64 :: size_t)) p1 = Some (p2, t) \<and>
      capacity p2 = 32 \<and>
      \<not> (push_locked_asserts RELEASE (pipe_new RELEASE 1 0) (replicate 64 7) 64 \<and>
         pop_each_asserts RELEASE (unat (64 :: size_t)) p1)"
    by auto
  from a b c d w1 b' c' d' w2 show ?thesis by blast
qed

theorem shrink_round_trip_counterexample:
  "(case pipe_push [] (pipe_new RELEASE 1 0) (replicate 100 7) 100 of
      Push_returned p c \<Rightarrow>
        (case pipe_pop p 100 of
           Pop_returned p' t r \<Rightarrow>
             r = 100 \<and> elem_count p' = 0 \<and> capacity p' = 64 \<and> min_cap p' = 32
         | _ \<Rightarrow> False)
    | _ \<Rightarrow> False)"
  by code_simp

text \<open>
  C1, at the failing input. A release build: push the 32 bytes 1, ..., 32 into a new
  pipe of one-byte elements, push the byte 33, pop 33 elements. The pop returns 33
  elements, but their first byte is the last byte pushed and the 32 bytes pushed first
  are gone: what is popped is not what was pushed.
\<close>

theorem order_lost_after_full_buffer_grows:
  "(case pipe_push [] (pipe_new RELEASE 1 0) (first_bytes 32) 32 of
      Push_returned p1 c1 \<Rightarrow>
        (case pipe_push [] p1 [33] 1 of
           Push_returned p2 c2 \<Rightarrow>
             (case pipe_pop p2 33 of
                Pop_returned p3 t r \<Rightarrow>
                  r = 33 \<and> t = 33 # replicate 32 0 \<and> t \<noteq> first_bytes 32 @ [33]
              | _ \<Rightarrow> False)
         | _ \<Rightarrow> False)
    | _ \<Rightarrow> False)"
  by code_simp

text \<open>
  C6, at the failing input. After the push of 32 bytes into the new pipe of capacity 32
  the cursors are equal although the pipe holds 32 elements, and \<open>check_invariants\<close> is
  false. After the push of one more byte and the pop of all 33, \<open>end_ptr\<close> stands at
  \<open>bufend\<close>, one past the end of the buffer, and the pipe is empty with cursors that
  differ.
\<close>

theorem full_buffer_cursors:
  "(case pipe_push [] (pipe_new RELEASE 1 0) (first_bytes 32) 32 of
      Push_returned p1 c1 \<Rightarrow>
        begin_ptr p1 = end_ptr p1 \<and> elem_count p1 = 32 \<and> \<not> check_invariants RELEASE p1 \<and>
        (case pipe_push [] p1 [33] 1 of
           Push_returned p2 c2 \<Rightarrow>
             (case pipe_pop p2 33 of
                Pop_returned p3 t r \<Rightarrow>
                  end_ptr p3 = bufend p3 \<and> elem_count p3 = 0 \<and> begin_ptr p3 \<noteq> end_ptr p3
              | _ \<Rightarrow> False)
         | _ \<Rightarrow> False)
    | _ \<Rightarrow> False)"
  by code_simp

end
